theory Spec2Isabelle
  imports Main "HOL-Library.Char_ord" "HOL-Library.List_Lexorder"
begin

section \<open>The built-in \<open>Map\<close>: an insertion-ordered dictionary\<close>

text \<open>
  A JavaScript \<open>Map\<close> keeps its entries in insertion order; \<open>set\<close> on a key that is
  present overwrites the value in place, \<open>set\<close> on a new key appends, \<open>delete\<close> removes
  the entry and leaves the order of the others alone, \<open>get\<close> of a missing key is
  \<open>undefined\<close> (here \<open>None\<close>). The model is the list of entries, oldest first.
\<close>

type_synonym ('k, 'v) jsmap = "('k \<times> 'v) list"

definition Map_has :: "'k \<Rightarrow> ('k, 'v) jsmap \<Rightarrow> bool" where
  "Map_has k m = (map_of m k \<noteq> None)"

definition Map_get :: "'k \<Rightarrow> ('k, 'v) jsmap \<Rightarrow> 'v option" where
  "Map_get k m = map_of m k"

fun Map_overwrite :: "'k \<Rightarrow> 'v \<Rightarrow> ('k, 'v) jsmap \<Rightarrow> ('k, 'v) jsmap" where
  "Map_overwrite k v [] = []"
| "Map_overwrite k v ((k', v') # m) =
     (if k' = k then (k, v) # m else (k', v') # Map_overwrite k v m)"

definition Map_set :: "'k \<Rightarrow> 'v \<Rightarrow> ('k, 'v) jsmap \<Rightarrow> ('k, 'v) jsmap" where
  "Map_set k v m = (if Map_has k m then Map_overwrite k v m else m @ [(k, v)])"

definition Map_delete :: "'k \<Rightarrow> ('k, 'v) jsmap \<Rightarrow> ('k, 'v) jsmap" where
  "Map_delete k m = filter (\<lambda>e. fst e \<noteq> k) m"

definition Map_size :: "('k, 'v) jsmap \<Rightarrow> nat" where
  "Map_size m = length m"

definition Map_keys :: "('k, 'v) jsmap \<Rightarrow> 'k list" where
  "Map_keys m = map fst m"

section \<open>\<open>LruCache\<close> (lru\_cache.ts)\<close>

text \<open>
  \<open>class LruCache extends Map\<close> with the public field \<open>maxSize\<close>. The inherited
  entries are the field \<open>entries\<close>; \<open>super.has\<close>, \<open>super.get\<close>, \<open>super.set\<close>,
  \<open>super.delete\<close> and the inherited \<open>delete\<close> and \<open>size\<close> are the \<open>Map\<close> operations
  above. \<open>maxSize\<close> is a natural number here (the source accepts any number).
\<close>

record ('k, 'v) LruCache =
  maxSize :: nat
  entries :: "('k, 'v) jsmap"

definition new_LruCache :: "nat \<Rightarrow> ('k, 'v) LruCache" where
  "new_LruCache n = \<lparr>maxSize = n, entries = []\<rparr>"

definition setMostRecentlyUsed :: "'k \<Rightarrow> 'v \<Rightarrow> ('k, 'v) LruCache \<Rightarrow> ('k, 'v) LruCache" where
  "setMostRecentlyUsed k v c = c\<lparr>entries := Map_set k v (Map_delete k (entries c))\<rparr>"

text \<open>
  \<open>this.keys().next().value\<close> is the first key in insertion order; on an empty map it
  is \<open>undefined\<close> and the \<open>delete\<close> removes nothing.
\<close>

definition pruneToMaxSize :: "('k, 'v) LruCache \<Rightarrow> ('k, 'v) LruCache" where
  "pruneToMaxSize c =
     (if Map_size (entries c) > maxSize c
      then (case Map_keys (entries c) of
              [] \<Rightarrow> c
            | k # _ \<Rightarrow> c\<lparr>entries := Map_delete k (entries c)\<rparr>)
      else c)"

definition lru_has :: "'k \<Rightarrow> ('k, 'v) LruCache \<Rightarrow> bool \<times> ('k, 'v) LruCache" where
  "lru_has k c =
     (case Map_get k (entries c) of
        Some v \<Rightarrow> (True, setMostRecentlyUsed k v c)
      | None \<Rightarrow> (False, c))"

definition lru_get :: "'k \<Rightarrow> ('k, 'v) LruCache \<Rightarrow> 'v option \<times> ('k, 'v) LruCache" where
  "lru_get k c =
     (case Map_get k (entries c) of
        Some v \<Rightarrow> (Some v, setMostRecentlyUsed k v c)
      | None \<Rightarrow> (None, c))"

definition lru_set :: "'k \<Rightarrow> 'v \<Rightarrow> ('k, 'v) LruCache \<Rightarrow> ('k, 'v) LruCache" where
  "lru_set k v c = pruneToMaxSize (setMostRecentlyUsed k v c)"

definition lru_delete :: "'k \<Rightarrow> ('k, 'v) LruCache \<Rightarrow> ('k, 'v) LruCache" where
  "lru_delete k c = c\<lparr>entries := Map_delete k (entries c)\<rparr>"

text \<open>A caller's use of the cache: any sequence of the four operations.\<close>

datatype ('k, 'v) lru_op = Has 'k | Get 'k | Set 'k 'v | Delete 'k

fun lru_step :: "('k, 'v) LruCache \<Rightarrow> ('k, 'v) lru_op \<Rightarrow> ('k, 'v) LruCache" where
  "lru_step c (Has k) = snd (lru_has k c)"
| "lru_step c (Get k) = snd (lru_get k c)"
| "lru_step c (Set k v) = lru_set k v c"
| "lru_step c (Delete k) = lru_delete k c"

definition lru_run :: "('k, 'v) LruCache \<Rightarrow> ('k, 'v) lru_op list \<Rightarrow> ('k, 'v) LruCache" where
  "lru_run c ops = foldl lru_step c ops"

text \<open>The invariant of a cache that started empty: distinct keys, at most \<open>maxSize\<close> of them.\<close>

definition lru_inv :: "('k, 'v) LruCache \<Rightarrow> bool" where
  "lru_inv c = (distinct (Map_keys (entries c)) \<and> Map_size (entries c) \<le> maxSize c)"

section \<open>JavaScript values\<close>

text \<open>
  The values the serializer and the memoizer tell apart.

  A number is a double. The finite doubles are given by their decimal numerals, as
  \<open>Number::toString\<close> of the language does: for a finite \<open>x\<close> other than zero it takes
  the shortest decimal numeral that reads back as \<open>x\<close>, and that numeral stands for \<open>x\<close>
  here; it is the numeral that \<open>String(x)\<close> shows. \<open>Finite i\<close> is the number whose numeral
  is the integer \<open>i\<close>, \<open>Decimal i f\<close> the one whose numeral is \<open>i\<close> with the decimal point
  \<open>f\<close> places from the right, that is \<open>i \<times> 10\<^sup>-\<^sup>f\<close>: \<open>1\<close> is \<open>Finite 1\<close>, \<open>0.1\<close> is
  \<open>Decimal 1 1\<close>, \<open>-1.5\<close> is \<open>Decimal (- 15) 1\<close>, \<open>1e21\<close> is \<open>Finite (10 ^ 21)\<close>, \<open>5e-324\<close>
  is \<open>Decimal 5 324\<close>, and \<open>2 ** 60\<close>, whose shortest numeral is \<open>1152921504606847000\<close>,
  is \<open>Finite 1152921504606847000\<close>. The numeral of an integer up to \<open>2\<^sup>5\<^sup>3\<close> in absolute
  value is that integer. Zero is \<open>Finite 0\<close>; negative zero, \<open>NaN\<close> and the two infinities
  have constructors of their own. Two numerals of the same value (\<open>Decimal 10 1\<close> and
  \<open>Finite 1\<close>) are the same number: the equalities below compare values, and the
  rendering does not tell them apart. A numeral that is the shortest numeral of no
  double (one of forty digits, say) stands for no number of the language.

  A string is the list of its characters, and a character outside ASCII is the bytes
  of its UTF-8 encoding; a string with a lone surrogate has no such encoding and is left
  out. A symbol is either registered (\<open>Symbol.for(key)\<close>, identified by its key, which is
  also its description) or unique (\<open>Symbol()\<close>, a well-known symbol). Objects, arrays,
  functions and promises are references; a promise is either one that the memoized
  function returned or one that \<open>catch\<close> created.
\<close>

datatype jsnum = NaN | PosInfinity | NegInfinity | NegZero | Finite int | Decimal int nat

datatype jssymbol = Registered string | Unique nat

datatype pid = FromFn nat | FromCatch nat

datatype jsval =
    Undefined
  | Null
  | Boolean bool
  | Number jsnum
  | String string
  | BigInt int
  | Symbol jssymbol
  | Object nat
  | Function nat
  | Promise pid

text \<open>What can be thrown, and what a promise can reject with.\<close>

datatype thrown = TypeError | Thrown jsval

fun typeof :: "jsval \<Rightarrow> string" where
  "typeof Undefined = ''undefined''"
| "typeof Null = ''object''"
| "typeof (Boolean _) = ''boolean''"
| "typeof (Number _) = ''number''"
| "typeof (String _) = ''string''"
| "typeof (BigInt _) = ''bigint''"
| "typeof (Symbol _) = ''symbol''"
| "typeof (Object _) = ''object''"
| "typeof (Function _) = ''function''"
| "typeof (Promise _) = ''object''"

text \<open>
  The numeral of a finite number: the integer of its digits and the number of digits
  after the decimal point. Both zeros have the numeral \<open>0\<close>.
\<close>

fun decimal :: "jsnum \<Rightarrow> (int \<times> nat) option" where
  "decimal (Finite i) = Some (i, 0)"
| "decimal (Decimal i f) = Some (i, f)"
| "decimal NegZero = Some (0, 0)"
| "decimal _ = None"

text \<open>
  The strict equality \<open>===\<close> of two numbers: \<open>NaN\<close> equals nothing, the two zeros
  are equal, two finite numbers are equal when their numerals have the same value
  (\<open>i \<times> 10\<^sup>-\<^sup>f = j \<times> 10\<^sup>-\<^sup>g\<close>, cross-multiplied). On all other values of the model it is
  identity.
\<close>

definition num_strict_equals :: "jsnum \<Rightarrow> jsnum \<Rightarrow> bool" where
  "num_strict_equals a b =
     (case (decimal a, decimal b) of
        (Some (i, f), Some (j, g)) \<Rightarrow> i * 10 ^ g = j * 10 ^ f
      | _ \<Rightarrow> a = b \<and> a \<noteq> NaN)"

fun strict_equals :: "jsval \<Rightarrow> jsval \<Rightarrow> bool" where
  "strict_equals (Number a) (Number b) = num_strict_equals a b"
| "strict_equals a b = (a = b)"

text \<open>
  \<open>SameValueZero\<close>, the equality of \<open>Map\<close> keys and of \<open>Array.prototype.includes\<close>:
  as \<open>===\<close>, and \<open>NaN\<close> equals \<open>NaN\<close>.
\<close>

fun same_value_zero :: "jsval \<Rightarrow> jsval \<Rightarrow> bool" where
  "same_value_zero (Number a) (Number b) = (num_strict_equals a b \<or> a = NaN \<and> b = NaN)"
| "same_value_zero a b = (a = b)"

text \<open>
  \<open>CanBeHeldWeakly\<close> of the language: what a \<open>WeakMap\<close> key, a \<open>WeakRef\<close> target
  or a \<open>FinalizationRegistry\<close> target may be. Objects and unregistered symbols.
\<close>

fun can_be_held_weakly :: "jsval \<Rightarrow> bool" where
  "can_be_held_weakly (Object _) = True"
| "can_be_held_weakly (Function _) = True"
| "can_be_held_weakly (Promise _) = True"
| "can_be_held_weakly (Symbol (Unique _)) = True"
| "can_be_held_weakly _ = False"

subsection \<open>Rendering\<close>

definition digit_char :: "nat \<Rightarrow> char" where
  "digit_char d = ''0123456789abcdef'' ! d"

fun string_of_nat :: "nat \<Rightarrow> string" where
  "string_of_nat n =
     (if n < 10 then [digit_char n] else string_of_nat (n div 10) @ [digit_char (n mod 10)])"

declare string_of_nat.simps [simp del]

definition string_of_int :: "int \<Rightarrow> string" where
  "string_of_int i = (if i < 0 then CHR ''-'' # string_of_nat (nat (- i)) else string_of_nat (nat i))"

text \<open>
  \<open>Number::toString\<close> of the language, radix 10, on a finite number other than zero.
  Its step 5 picks integers \<open>n\<close>, \<open>k\<close> and \<open>s\<close> with \<open>s\<close> of \<open>k\<close> digits, \<open>s \<times> 10\<^sup>n\<^sup>-\<^sup>k\<close>
  reading back as the number and \<open>k\<close> as small as possible. Here the number is its
  numeral \<open>i \<times> 10\<^sup>-\<^sup>f\<close>: \<open>s\<close> is \<open>\<bar>i\<bar>\<close> without its trailing zeros (\<open>strip_zeros\<close> returns it
  with the number \<open>z\<close> of zeros removed), \<open>k\<close> is the number of its digits, and
  \<open>n = k + z - f\<close>. Steps 6 to 11 are \<open>format_decimal\<close>: plain digits when
  \<open>-5 \<le> n \<le> 21\<close> (followed by zeros, or with a decimal point inside, or after \<open>0.\<close> and
  zeros), and otherwise the exponent form, the first digit, the others after a point if
  there are any, \<open>e\<close>, the sign and \<open>\<bar>n - 1\<bar>\<close>.
\<close>

fun strip_zeros :: "nat \<Rightarrow> nat \<Rightarrow> nat \<times> nat" where
  "strip_zeros s z =
     (if s \<noteq> 0 \<and> s mod 10 = 0 then strip_zeros (s div 10) (z + 1) else (s, z))"

declare strip_zeros.simps [simp del]

definition format_decimal :: "string \<Rightarrow> int \<Rightarrow> string" where
  "format_decimal digits n =
     (let k = int (length digits) in
      if - 5 \<le> n \<and> n \<le> 21 then
        (if k \<le> n then digits @ replicate (nat (n - k)) (CHR ''0'')
         else if 0 < n then take (nat n) digits @ ''.'' @ drop (nat n) digits
         else ''0.'' @ replicate (nat (- n)) (CHR ''0'') @ digits)
      else
        (if k = 1 then digits else take 1 digits @ ''.'' @ drop 1 digits) @ ''e'' @
        (if n < 0 then ''-'' else ''+'') @ string_of_nat (nat \<bar>n - 1\<bar>))"

definition number_to_string :: "int \<Rightarrow> nat \<Rightarrow> string" where
  "number_to_string i f =
     (if i = 0 then ''0''
      else (case strip_zeros (nat \<bar>i\<bar>) 0 of (s, z) \<Rightarrow>
              (if i < 0 then ''-'' else []) @
              format_decimal (string_of_nat s) (int (length (string_of_nat s)) + int z - int f)))"

text \<open>
  \<open>JSON.stringify\<close> of a string (\<open>QuoteJSONString\<close>): the quote and the backslash are
  escaped, the control characters have their short escapes or \<open>\u00XX\<close>.
\<close>

definition json_escape :: "char \<Rightarrow> string" where
  "json_escape c =
     (let n = (of_char c :: nat) in
      if n = 0x08 then [CHR 0x5C, CHR ''b'']
      else if n = 0x09 then [CHR 0x5C, CHR ''t'']
      else if n = 0x0A then [CHR 0x5C, CHR ''n'']
      else if n = 0x0C then [CHR 0x5C, CHR ''f'']
      else if n = 0x0D then [CHR 0x5C, CHR ''r'']
      else if n = 0x22 then [CHR 0x5C, CHR 0x22]
      else if n = 0x5C then [CHR 0x5C, CHR 0x5C]
      else if n < 0x20 then [CHR 0x5C, CHR ''u'', CHR ''0'', CHR ''0'',
                             digit_char (n div 16), digit_char (n mod 16)]
      else [c])"

definition json_quote :: "string \<Rightarrow> string" where
  "json_quote s = CHR 0x22 # concat (map json_escape s) @ [CHR 0x22]"

text \<open>
  \<open>JSON.stringify\<close> on the values the serializers pass to it: strings, numbers,
  booleans and \<open>null\<close>. A finite number is rendered by \<open>Number::toString\<close>, \<open>NaN\<close> and the
  infinities as \<open>null\<close>. There it neither throws nor returns \<open>undefined\<close>; \<open>None\<close>
  stands for every other outcome.
\<close>

fun JSON_stringify :: "jsval \<Rightarrow> string option" where
  "JSON_stringify (String s) = Some (json_quote s)"
| "JSON_stringify (Number x) =
     Some (case decimal x of Some (i, f) \<Rightarrow> number_to_string i f | None \<Rightarrow> ''null'')"
| "JSON_stringify (Boolean b) = Some (if b then ''true'' else ''false'')"
| "JSON_stringify Null = Some ''null''"
| "JSON_stringify _ = None"

text \<open>\<open>Array.prototype.join\<close> on an array of strings.\<close>

fun join :: "string \<Rightarrow> string list \<Rightarrow> string" where
  "join sep [] = []"
| "join sep [s] = s"
| "join sep (s # t # ss) = s @ sep @ join sep (t # ss)"

section \<open>The cache contract (\<open>MemoizationCache\<close>)\<close>

text \<open>
  Any object with \<open>has\<close>, \<open>get\<close>, \<open>set\<close> and \<open>delete\<close>. The operations act on the
  cache's own state \<open>'c\<close>; \<open>has\<close> and \<open>get\<close> may change it (the LRU cache reorders).
  \<open>get\<close> of a missing key is \<open>undefined\<close>.
\<close>

record ('c, 'k) cache_ops =
  c_has :: "'k \<Rightarrow> 'c \<Rightarrow> bool \<times> 'c"
  c_get :: "'k \<Rightarrow> 'c \<Rightarrow> jsval \<times> 'c"
  c_set :: "'k \<Rightarrow> jsval \<Rightarrow> 'c \<Rightarrow> 'c"
  c_delete :: "'k \<Rightarrow> 'c \<Rightarrow> 'c"

definition or_undefined :: "jsval option \<Rightarrow> jsval" where
  "or_undefined r = (case r of None \<Rightarrow> Undefined | Some v \<Rightarrow> v)"

text \<open>\<open>new Map()\<close>, the default cache.\<close>

definition Map_cache :: "(('k, jsval) jsmap, 'k) cache_ops" where
  "Map_cache =
     \<lparr>c_has = (\<lambda>k m. (Map_has k m, m)),
      c_get = (\<lambda>k m. (or_undefined (Map_get k m), m)),
      c_set = Map_set,
      c_delete = Map_delete\<rparr>"

text \<open>\<open>new LruCache(n)\<close> as a cache.\<close>

definition Lru_cache :: "(('k, jsval) LruCache, 'k) cache_ops" where
  "Lru_cache =
     \<lparr>c_has = lru_has,
      c_get = (\<lambda>k c. (or_undefined (fst (lru_get k c)), snd (lru_get k c))),
      c_set = lru_set,
      c_delete = lru_delete\<rparr>"

section \<open>The default serializer, memoize.ts\<close>

text \<open>
  \<open>_serializeArgList(cache)\<close> closes over a \<open>WeakMap\<close> from reference values to their
  key segments, a \<open>Map\<close> from key segments to the keys built from them, the counter
  \<open>i\<close> (here \<open>next_i\<close>) and a \<open>FinalizationRegistry\<close>. The record is that closure
  state. A \<open>WeakMap\<close> cannot be iterated, so it is a partial function; the registry is
  the list of its registrations (target, held value).
\<close>

record serializer =
  weakKeyToKeySegmentCache :: "jsval \<rightharpoonup> string"
  weakKeySegmentToKeyCache :: "(string, string list) jsmap"
  next_i :: nat
  registry :: "(jsval \<times> string) list"

definition new_serializer :: serializer where
  "new_serializer =
     \<lparr>weakKeyToKeySegmentCache = Map.empty, weakKeySegmentToKeyCache = [],
      next_i = 0, registry = []\<rparr>"

text \<open>The template \<open>`{${i++}}`\<close>.\<close>

definition ref_token :: "nat \<Rightarrow> string" where
  "ref_token n = CHR ''{'' # string_of_nat n @ ''}''"

text \<open>
  The part both revisions of memoize.ts share (lines 111-120 and 278-287): look the
  value up in the \<open>WeakMap\<close>, give it the next token when it is new. \<open>WeakMap.has\<close> is
  \<open>false\<close> on a value that cannot be held weakly, and \<open>registry.register\<close> then throws a
  \<open>TypeError\<close>, after \<open>i++\<close>. The second component of the state is the local array
  \<open>weakKeySegments\<close>; a new value's token is pushed twice, as in the source.
\<close>

definition weak_segment ::
  "jsval \<Rightarrow> serializer \<times> string list \<Rightarrow> (thrown + string) \<times> serializer \<times> string list" where
  "weak_segment arg = (\<lambda>(st, wks).
     (case weakKeyToKeySegmentCache st arg of
        None \<Rightarrow>
          (let keySegment = ref_token (next_i st);
               st1 = st\<lparr>next_i := next_i st + 1\<rparr>;
               wks1 = wks @ [keySegment]
           in if \<not> can_be_held_weakly arg then (Inl TypeError, st1, wks1)
              else (Inr keySegment,
                    st1\<lparr>registry := registry st1 @ [(arg, keySegment)],
                        weakKeyToKeySegmentCache := (weakKeyToKeySegmentCache st1)(arg \<mapsto> keySegment)\<rparr>,
                    wks1 @ [keySegment]))
      | Some keySegment \<Rightarrow> (Inr keySegment, st, wks @ [keySegment])))"

text \<open>The callback of \<open>map\<close>, memoize.ts lines 100-121.\<close>

definition keySegment_v1 ::
  "jsval \<Rightarrow> serializer \<times> string list \<Rightarrow> (thrown + string) \<times> serializer \<times> string list" where
  "keySegment_v1 arg = (\<lambda>(st, wks).
     if typeof arg = ''string'' \<or> typeof arg = ''number'' \<or> typeof arg = ''boolean'' \<or> arg = Null
     then (case JSON_stringify arg of
             Some s \<Rightarrow> (Inr s, st, wks)
           | None \<Rightarrow> (Inl TypeError, st, wks))
     else if typeof arg = ''undefined'' then (Inr ''undefined'', st, wks)
     else (case arg of
             BigInt b \<Rightarrow> (Inr (string_of_int b @ ''n''), st, wks)
           | _ \<Rightarrow> weak_segment arg (st, wks)))"

text \<open>\<open>function assertWeakKey(arg) { new WeakRef(arg) }\<close>\<close>

definition assertWeakKey :: "jsval \<Rightarrow> thrown + unit" where
  "assertWeakKey arg = (if can_be_held_weakly arg then Inr () else Inl TypeError)"

text \<open>A symbol's \<open>description\<close>: the key of a registered symbol (the only case read).\<close>

fun description :: "jssymbol \<Rightarrow> jsval" where
  "description (Registered d) = String d"
| "description (Unique _) = Undefined"

text \<open>
  The callback of \<open>map\<close>, memoize.ts lines 254-288. \<open>try { return JSON.stringify(arg) }
  catch { }\<close> falls through when \<open>JSON.stringify\<close> does not return a string.
\<close>

definition keySegment_v2 ::
  "jsval \<Rightarrow> serializer \<times> string list \<Rightarrow> (thrown + string) \<times> serializer \<times> string list" where
  "keySegment_v2 arg = (\<lambda>(st, wks).
     if typeof arg = ''undefined'' then (Inr ''undefined'', st, wks)
     else (case arg of
        BigInt b \<Rightarrow> (Inr (string_of_int b @ ''n''), st, wks)
      | _ \<Rightarrow>
        (case (if typeof arg \<noteq> ''symbol'' \<and> typeof arg \<noteq> ''function'' \<and>
                  (arg = Null \<or> typeof arg \<noteq> ''object'')
               then JSON_stringify arg else None) of
           Some s \<Rightarrow> (Inr s, st, wks)
         | None \<Rightarrow>
           (case assertWeakKey arg of
              Inl e \<Rightarrow>
                (case arg of
                   Symbol sy \<Rightarrow>
                     (case JSON_stringify (description sy) of
                        Some d \<Rightarrow> (Inr (''Symbol.for('' @ d @ '')''), st, wks)
                      | None \<Rightarrow> (Inr ''Symbol.for(undefined)'', st, wks))
                 | _ \<Rightarrow> (Inl e, st, wks))
            | Inr _ \<Rightarrow> weak_segment arg (st, wks)))))"

text \<open>
  \<open>[this, ...args].map(callback)\<close>: the callback runs on the values in order, and an
  exception ends the call; what it had changed by then stays changed.
\<close>

fun map_segments ::
  "(jsval \<Rightarrow> 's \<Rightarrow> (thrown + string) \<times> 's) \<Rightarrow> jsval list \<Rightarrow> 's \<Rightarrow> (thrown + string list) \<times> 's" where
  "map_segments f [] s = (Inr [], s)"
| "map_segments f (a # as) s =
     (case f a s of
        (Inl e, s1) \<Rightarrow> (Inl e, s1)
      | (Inr seg, s1) \<Rightarrow>
          (case map_segments f as s1 of
             (Inl e, s2) \<Rightarrow> (Inl e, s2)
           | (Inr segs, s2) \<Rightarrow> (Inr (seg # segs), s2)))"

text \<open>
  The loop \<open>for (const keySegment of segments) { keys = index.get(keySegment) ?? [];
  keys.push(key); index.set(keySegment, keys) }\<close>.
\<close>

fun index_key :: "string \<Rightarrow> string list \<Rightarrow> (string, string list) jsmap \<Rightarrow> (string, string list) jsmap" where
  "index_key key [] idx = idx"
| "index_key key (seg # segs) idx =
     index_key key segs
       (Map_set seg ((case Map_get seg idx of None \<Rightarrow> [] | Some keys \<Rightarrow> keys) @ [key]) idx)"

definition serialize ::
  "(jsval \<Rightarrow> serializer \<times> string list \<Rightarrow> (thrown + string) \<times> serializer \<times> string list) \<Rightarrow>
   jsval \<Rightarrow> jsval list \<Rightarrow> serializer \<Rightarrow> (thrown + string) \<times> serializer" where
  "serialize callback this args st =
     (case map_segments callback (this # args) (st, []) of
        (Inl e, st1, wks) \<Rightarrow> (Inl e, st1)
      | (Inr keySegments, st1, weakKeySegments) \<Rightarrow>
          (let key = join '','' keySegments
           in (Inr key,
               st1\<lparr>weakKeySegmentToKeyCache :=
                     index_key key weakKeySegments (weakKeySegmentToKeyCache st1)\<rparr>)))"

text \<open>The function \<open>_serializeArgList\<close> returns, in the two revisions of memoize.ts.\<close>

definition getKey_v1 :: "jsval \<Rightarrow> jsval list \<Rightarrow> serializer \<Rightarrow> (thrown + string) \<times> serializer" where
  "getKey_v1 = serialize keySegment_v1"

definition getKey_v2 :: "jsval \<Rightarrow> jsval list \<Rightarrow> serializer \<Rightarrow> (thrown + string) \<times> serializer" where
  "getKey_v2 = serialize keySegment_v2"

text \<open>
  The cleanup callback of the registry (memoize.ts lines 91-96 and 245-250), called with
  the key segment of a value that was collected: it acts on the serializer's index and
  on the cache the serializer was made for.
\<close>

definition registry_callback ::
  "('c, string) cache_ops \<Rightarrow> string \<Rightarrow> serializer \<times> 'c \<Rightarrow> serializer \<times> 'c" where
  "registry_callback cache keySegment = (\<lambda>(st, c).
     (st\<lparr>weakKeySegmentToKeyCache := Map_delete keySegment (weakKeySegmentToKeyCache st)\<rparr>,
      foldl (\<lambda>c key. c_delete cache key c) c
        (case Map_get keySegment (weakKeySegmentToKeyCache st) of None \<Rightarrow> [] | Some keys \<Rightarrow> keys)))"

text \<open>
  A value is collected: its \<open>WeakMap\<close> entry is gone and its registrations are taken
  out of the registry, which will call back with their held values.
\<close>

definition collect :: "jsval \<Rightarrow> serializer \<Rightarrow> serializer" where
  "collect x st =
     st\<lparr>weakKeyToKeySegmentCache := (weakKeyToKeySegmentCache st)(x := None),
        registry := filter (\<lambda>r. fst r \<noteq> x) (registry st)\<rparr>"

section \<open>The default serializer, mod.ts\<close>

text \<open>
  The closure state of \<open>_serializeArgList\<close> in mod.ts: a \<open>WeakMap\<close> and a \<open>Map\<close>
  from values to key segments, the \<open>Map\<close> from key segments to keys, the counter
  and the registry.
\<close>

record serializer_mod =
  weakKeySegmentCache :: "jsval \<rightharpoonup> string"
  strongKeySegmentCache :: "(jsval, string) jsmap"
  keySegmentToKeyCache :: "(string, string list) jsmap"
  mod_i :: nat
  finalizationRegistry :: "(jsval \<times> string) list"

definition new_serializer_mod :: serializer_mod where
  "new_serializer_mod =
     \<lparr>weakKeySegmentCache = Map.empty, strongKeySegmentCache = [],
      keySegmentToKeyCache = [], mod_i = 0, finalizationRegistry = []\<rparr>"

text \<open>\<open>nextReferenceKeySegment = () => `\x01{${i++}}\x02`\<close>\<close>

definition nextReferenceKeySegment :: "serializer_mod \<Rightarrow> string \<times> serializer_mod" where
  "nextReferenceKeySegment st =
     (CHR 0x01 # ref_token (mod_i st) @ [CHR 0x02], st\<lparr>mod_i := mod_i st + 1\<rparr>)"

text \<open>The body of \<open>try\<close>, lines 61-72.\<close>

definition try_weak :: "jsval \<Rightarrow> serializer_mod \<Rightarrow> (thrown + string) \<times> serializer_mod" where
  "try_weak arg st =
     (case assertWeakKey arg of
        Inl e \<Rightarrow> (Inl e, st)
      | Inr _ \<Rightarrow>
          (case weakKeySegmentCache st arg of
             Some keySegment \<Rightarrow> (Inr keySegment, st)
           | None \<Rightarrow>
               (case nextReferenceKeySegment st of
                  (keySegment, st1) \<Rightarrow>
                    (Inr keySegment,
                     st1\<lparr>finalizationRegistry := finalizationRegistry st1 @ [(arg, keySegment)],
                         weakKeySegmentCache := (weakKeySegmentCache st1)(arg \<mapsto> keySegment)\<rparr>))))"

text \<open>The body of \<open>catch\<close>, lines 74-82.\<close>

definition catch_strong :: "jsval \<Rightarrow> serializer_mod \<Rightarrow> (thrown + string) \<times> serializer_mod" where
  "catch_strong arg st =
     (case Map_get arg (strongKeySegmentCache st) of
        Some keySegment \<Rightarrow> (Inr keySegment, st)
      | None \<Rightarrow>
          (case nextReferenceKeySegment st of
             (keySegment, st1) \<Rightarrow>
               (Inr keySegment,
                st1\<lparr>strongKeySegmentCache := Map_set arg keySegment (strongKeySegmentCache st1)\<rparr>)))"

text \<open>The callback of \<open>map\<close>, lines 44-84.\<close>

definition keySegment_mod :: "jsval \<Rightarrow> serializer_mod \<Rightarrow> (thrown + string) \<times> serializer_mod" where
  "keySegment_mod arg st =
     (if typeof arg = ''string'' \<or> typeof arg = ''number'' \<or> typeof arg = ''boolean'' \<or> arg = Null
      then (case JSON_stringify arg of
              Some s \<Rightarrow> (Inr s, st)
            | None \<Rightarrow> (Inl TypeError, st))
      else if typeof arg = ''undefined'' then (Inr ''undefined'', st)
      else (case arg of
              BigInt b \<Rightarrow> (Inr (string_of_int b @ ''n''), st)
            | _ \<Rightarrow>
              (case try_weak arg st of
                 (Inr keySegment, st1) \<Rightarrow> (Inr keySegment, st1)
               | (Inl e, st1) \<Rightarrow> catch_strong arg st1)))"

definition getKey_mod :: "jsval \<Rightarrow> jsval list \<Rightarrow> serializer_mod \<Rightarrow> (thrown + string) \<times> serializer_mod" where
  "getKey_mod this args st =
     (case map_segments keySegment_mod (this # args) st of
        (Inl e, st1) \<Rightarrow> (Inl e, st1)
      | (Inr segments, st1) \<Rightarrow>
          (let mapped = join '','' segments
           in (Inr mapped,
               st1\<lparr>keySegmentToKeyCache := index_key mapped segments (keySegmentToKeyCache st1)\<rparr>)))"

text \<open>The cleanup callback of mod.ts, lines 32-38.\<close>

definition finalizationRegistry_callback ::
  "('c, string) cache_ops \<Rightarrow> string \<Rightarrow> serializer_mod \<times> 'c \<Rightarrow> serializer_mod \<times> 'c" where
  "finalizationRegistry_callback cache keySegment = (\<lambda>(st, c).
     (st,
      foldl (\<lambda>c key. c_delete cache key c) c
        (case Map_get keySegment (keySegmentToKeyCache st) of None \<Rightarrow> [] | Some keys \<Rightarrow> keys)))"

section \<open>The memoizer\<close>

text \<open>
  What \<open>memoize(fn, options)\<close> closes over: the function and its \<open>length\<close>, the three
  options after their defaults. The function receives \<open>this\<close> and the arguments, acts
  on a state of its own and returns or throws; the key function likewise, on the state
  of its closure. So the key function does not reach the cache itself, and this \<open>fn\<close>
  neither reaches the cache nor calls the memoized function; a function that calls the
  memoized function while it runs has the section after this one. The operations of
  the cache are taken not to throw.
\<close>

record ('c, 'g, 'w, 'k) memoizer =
  fn :: "jsval \<Rightarrow> jsval list \<Rightarrow> 'w \<Rightarrow> (thrown + jsval) \<times> 'w"
  fn_length :: nat
  truncateArgs :: bool
  cache :: "('c, 'k) cache_ops"
  getKey :: "jsval \<Rightarrow> jsval list \<Rightarrow> 'g \<Rightarrow> (thrown + 'k) \<times> 'g"

text \<open>
  The state a call acts on: the cache, the closure of the key function, the state of
  \<open>fn\<close>, and the promises. \<open>invocations\<close> is a log of the calls \<open>fn.apply(this, args)\<close>,
  and \<open>invoked_keys\<close> the log of the keys they were made for; the code reads neither.
  A promise is pending until \<open>promises\<close> gives its
  settlement; \<open>reactions\<close> are the handlers \<open>catch\<close> has attached: the promise, the key
  the handler deletes, and the promise \<open>catch\<close> returned.
\<close>

datatype settlement = Fulfilled jsval | Rejected thrown

record ('c, 'g, 'w, 'k) memo_state =
  cache_state :: 'c
  key_state :: 'g
  fn_state :: 'w
  invocations :: "(jsval \<times> jsval list) list"
  invoked_keys :: "'k list"
  promises :: "pid \<rightharpoonup> settlement"
  reactions :: "(pid \<times> 'k \<times> pid) list"
  next_promise :: nat

text \<open>
  \<open>val.catch((reason) => { cache.delete(key); throw reason })\<close>: a new promise, and
  the handler attached to \<open>val\<close>.
\<close>

definition promise_catch ::
  "pid \<Rightarrow> 'k \<Rightarrow> ('c, 'g, 'w, 'k) memo_state \<Rightarrow> jsval \<times> ('c, 'g, 'w, 'k) memo_state" where
  "promise_catch p key s =
     (Promise (FromCatch (next_promise s)),
      s\<lparr>reactions := reactions s @ [(p, key, FromCatch (next_promise s))],
        next_promise := next_promise s + 1\<rparr>)"

definition truncated :: "('c, 'g, 'w, 'k) memoizer \<Rightarrow> jsval list \<Rightarrow> jsval list" where
  "truncated m args = (if truncateArgs m then take (fn_length m) args else args)"

text \<open>The function \<open>memoized\<close>, memoize.ts lines 56-77.\<close>

definition memoized ::
  "('c, 'g, 'w, 'k) memoizer \<Rightarrow> jsval \<Rightarrow> jsval list \<Rightarrow> ('c, 'g, 'w, 'k) memo_state \<Rightarrow>
   (thrown + jsval) \<times> ('c, 'g, 'w, 'k) memo_state" where
  "memoized m this args0 s =
     (let args = truncated m args0 in
      case getKey m this args (key_state s) of
        (Inl e, g) \<Rightarrow> (Inl e, s\<lparr>key_state := g\<rparr>)
      | (Inr key, g) \<Rightarrow>
          (case c_has (cache m) key (cache_state s) of
             (True, c1) \<Rightarrow>
               (case c_get (cache m) key c1 of
                  (v, c2) \<Rightarrow> (Inr v, s\<lparr>key_state := g, cache_state := c2\<rparr>))
           | (False, c1) \<Rightarrow>
               (case fn m this args (fn_state s) of
                  (Inl e, w) \<Rightarrow>
                    (Inl e, s\<lparr>key_state := g, cache_state := c1, fn_state := w,
                              invocations := invocations s @ [(this, args)],
                              invoked_keys := invoked_keys s @ [key]\<rparr>)
                | (Inr val, w) \<Rightarrow>
                    (let s1 = s\<lparr>key_state := g, cache_state := c1, fn_state := w,
                                invocations := invocations s @ [(this, args)],
                                invoked_keys := invoked_keys s @ [key]\<rparr>;
                         (val', s2) = (case val of
                                         Promise p \<Rightarrow> promise_catch p key s1
                                       | _ \<Rightarrow> (val, s1))
                     in (Inr val', s2\<lparr>cache_state := c_set (cache m) key val' (cache_state s2)\<rparr>)))))"

text \<open>
  The promise \<open>p\<close> settles (once; settling a settled promise changes nothing).
\<close>

definition settle ::
  "pid \<Rightarrow> settlement \<Rightarrow> ('c, 'g, 'w, 'k) memo_state \<Rightarrow> ('c, 'g, 'w, 'k) memo_state" where
  "settle p outcome s =
     (case promises s p of
        None \<Rightarrow> s\<lparr>promises := (promises s)(p \<mapsto> outcome)\<rparr>
      | Some _ \<Rightarrow> s)"

text \<open>
  One handler that \<open>catch\<close> attached runs, on the settlement of its promise: on a
  rejection it deletes the key and rethrows, which rejects the promise that \<open>catch\<close>
  returned with the same reason; a fulfilment passes through.
\<close>

definition run_reaction ::
  "('c, 'g, 'w, 'k) memoizer \<Rightarrow> settlement \<Rightarrow> ('c, 'g, 'w, 'k) memo_state \<Rightarrow> pid \<times> 'k \<times> pid \<Rightarrow>
   ('c, 'g, 'w, 'k) memo_state" where
  "run_reaction m outcome s = (\<lambda>(p, key, d).
     (case outcome of
        Rejected reason \<Rightarrow>
          s\<lparr>cache_state := c_delete (cache m) key (cache_state s),
            promises := (promises s)(d \<mapsto> Rejected reason)\<rparr>
      | Fulfilled v \<Rightarrow> s\<lparr>promises := (promises s)(d \<mapsto> Fulfilled v)\<rparr>))"

text \<open>
  The jobs of a settled promise run: each handler attached to it, in the order of
  attachment. Nothing runs for a pending promise.
\<close>

definition run_reactions ::
  "('c, 'g, 'w, 'k) memoizer \<Rightarrow> pid \<Rightarrow> ('c, 'g, 'w, 'k) memo_state \<Rightarrow> ('c, 'g, 'w, 'k) memo_state" where
  "run_reactions m p s =
     (case promises s p of
        None \<Rightarrow> s
      | Some outcome \<Rightarrow>
          foldl (run_reaction m outcome)
            (s\<lparr>reactions := filter (\<lambda>r. fst r \<noteq> p) (reactions s)\<rparr>)
            (filter (\<lambda>r. fst r = p) (reactions s)))"

text \<open>A sequence of calls of the memoized function, with their results.\<close>

fun calls ::
  "('c, 'g, 'w, 'k) memoizer \<Rightarrow> (jsval \<times> jsval list) list \<Rightarrow> ('c, 'g, 'w, 'k) memo_state \<Rightarrow>
   (thrown + jsval) list \<times> ('c, 'g, 'w, 'k) memo_state" where
  "calls m [] s = ([], s)"
| "calls m ((this, args) # cs) s =
     (case memoized m this args s of
        (r, s1) \<Rightarrow> (case calls m cs s1 of (rs, s2) \<Rightarrow> (r # rs, s2)))"

text \<open>
  Every call of the sequence derives the key \<open>k\<close>, each in the state the calls before
  it have left.
\<close>

fun derive_key ::
  "('c, 'g, 'w, 'k) memoizer \<Rightarrow> 'k \<Rightarrow> (jsval \<times> jsval list) list \<Rightarrow> ('c, 'g, 'w, 'k) memo_state \<Rightarrow> bool" where
  "derive_key m k [] s = True"
| "derive_key m k ((this, args) # cs) s =
     (fst (getKey m this (truncated m args) (key_state s)) = Inr k \<and>
      derive_key m k cs (snd (memoized m this args s)))"

text \<open>
  \<open>memoize(fn)\<close> and \<open>memoize(fn, { truncateArgs })\<close>: the cache is a new \<open>Map\<close>, the
  key function the default serializer for it (that of memoize.ts lines 84-133).
\<close>

definition memoize ::
  "(jsval \<Rightarrow> jsval list \<Rightarrow> 'w \<Rightarrow> (thrown + jsval) \<times> 'w) \<Rightarrow> nat \<Rightarrow> bool option \<Rightarrow>
   ((string, jsval) jsmap, serializer, 'w, string) memoizer" where
  "memoize f n opt_truncateArgs =
     \<lparr>fn = f, fn_length = n,
      truncateArgs = (case opt_truncateArgs of None \<Rightarrow> False | Some b \<Rightarrow> b),
      cache = Map_cache, getKey = getKey_v1\<rparr>"

definition new_state :: "'c \<Rightarrow> 'g \<Rightarrow> 'w \<Rightarrow> ('c, 'g, 'w, 'k) memo_state" where
  "new_state c g w =
     \<lparr>cache_state = c, key_state = g, fn_state = w, invocations = [], invoked_keys = [],
      promises = Map.empty, reactions = [], next_promise = 0\<rparr>"

section \<open>The memoizer of a function that calls the memoized function\<close>

text \<open>
  The function that is memoized can call the memoized function while it runs, as
  \<open>fib\<close> in the documentation of \<open>memoize\<close> does, with any receiver and arguments and
  any number of times. An invocation of such a function either finishes (\<open>Done\<close>: it
  returns or throws, and leaves its own state), or it calls the memoized function
  (\<open>CallMemoized\<close>: the receiver and the arguments, and its own state at that moment) and
  goes on from the outcome of that call, a value or an exception, and from its own
  state as that call left it. The function reaches the cache through these calls.
\<close>

datatype 'w body =
    Done "thrown + jsval" 'w
  | CallMemoized jsval "jsval list" 'w "thrown + jsval \<Rightarrow> 'w \<Rightarrow> 'w body"

text \<open>What \<open>memoize(fn, options)\<close> closes over, for such a function.\<close>

record ('c, 'g, 'w, 'k) reentrant_memoizer =
  fn_r :: "jsval \<Rightarrow> jsval list \<Rightarrow> 'w \<Rightarrow> 'w body"
  fn_length_r :: nat
  truncateArgs_r :: bool
  cache_r :: "('c, 'k) cache_ops"
  getKey_r :: "jsval \<Rightarrow> jsval list \<Rightarrow> 'g \<Rightarrow> (thrown + 'k) \<times> 'g"

definition truncated_r :: "('c, 'g, 'w, 'k) reentrant_memoizer \<Rightarrow> jsval list \<Rightarrow> jsval list" where
  "truncated_r m args = (if truncateArgs_r m then take (fn_length_r m) args else args)"

text \<open>
  \<open>fn.apply(this, args)\<close>: the invocation runs, and each call it makes is a call of
  \<open>memoized_fn\<close> on the state as it is then. A call that does not return (\<open>None\<close>)
  ends the invocation, which does not return either.
\<close>

primrec run_body ::
  "(jsval \<Rightarrow> jsval list \<Rightarrow> ('c, 'g, 'w, 'k) memo_state \<Rightarrow>
      (thrown + jsval) option \<times> ('c, 'g, 'w, 'k) memo_state) \<Rightarrow>
   'w body \<Rightarrow> ('c, 'g, 'w, 'k) memo_state \<Rightarrow>
   (thrown + jsval) option \<times> ('c, 'g, 'w, 'k) memo_state" where
  "run_body memoized_fn (Done r w) s = (Some r, s\<lparr>fn_state := w\<rparr>)"
| "run_body memoized_fn (CallMemoized this args w continue) s =
     (case memoized_fn this args (s\<lparr>fn_state := w\<rparr>) of
        (None, s1) \<Rightarrow> (None, s1)
      | (Some r, s1) \<Rightarrow> run_body memoized_fn (continue r (fn_state s1)) s1)"

text \<open>
  The function \<open>memoized\<close>, memoize.ts lines 56-77, once more. The calls that \<open>fn\<close>
  makes are calls of this function; they find the cache as the outer call has left it
  at line 65, without the entry for the outer call's key, which is set when \<open>fn\<close> has
  returned (line 74). \<open>depth\<close> bounds the nesting of the calls: at depth 0 a call does
  not return.
\<close>

primrec memoized_r ::
  "nat \<Rightarrow> ('c, 'g, 'w, 'k) reentrant_memoizer \<Rightarrow> jsval \<Rightarrow> jsval list \<Rightarrow>
   ('c, 'g, 'w, 'k) memo_state \<Rightarrow> (thrown + jsval) option \<times> ('c, 'g, 'w, 'k) memo_state" where
  "memoized_r 0 m this args0 s = (None, s)"
| "memoized_r (Suc depth) m this args0 s =
     (let args = truncated_r m args0 in
      case getKey_r m this args (key_state s) of
        (Inl e, g) \<Rightarrow> (Some (Inl e), s\<lparr>key_state := g\<rparr>)
      | (Inr key, g) \<Rightarrow>
          (case c_has (cache_r m) key (cache_state s) of
             (True, c1) \<Rightarrow>
               (case c_get (cache_r m) key c1 of
                  (v, c2) \<Rightarrow> (Some (Inr v), s\<lparr>key_state := g, cache_state := c2\<rparr>))
           | (False, c1) \<Rightarrow>
               (case run_body (memoized_r depth m) (fn_r m this args (fn_state s))
                       (s\<lparr>key_state := g, cache_state := c1,
                          invocations := invocations s @ [(this, args)],
                          invoked_keys := invoked_keys s @ [key]\<rparr>) of
                  (None, s1) \<Rightarrow> (None, s1)
                | (Some (Inl e), s1) \<Rightarrow> (Some (Inl e), s1)
                | (Some (Inr val), s1) \<Rightarrow>
                    (let (val', s2) = (case val of
                                         Promise p \<Rightarrow> promise_catch p key s1
                                       | _ \<Rightarrow> (val, s1))
                     in (Some (Inr val'),
                         s2\<lparr>cache_state := c_set (cache_r m) key val' (cache_state s2)\<rparr>)))))"

text \<open>
  A function that does not call the memoized function, as an invocation; and the
  memoizer of the section before, read as a memoizer of this one.
\<close>

definition plain ::
  "(jsval \<Rightarrow> jsval list \<Rightarrow> 'w \<Rightarrow> (thrown + jsval) \<times> 'w) \<Rightarrow> jsval \<Rightarrow> jsval list \<Rightarrow> 'w \<Rightarrow> 'w body" where
  "plain f this args w = (case f this args w of (r, w') \<Rightarrow> Done r w')"

definition reentrant ::
  "('c, 'g, 'w, 'k) memoizer \<Rightarrow> ('c, 'g, 'w, 'k) reentrant_memoizer" where
  "reentrant m =
     \<lparr>fn_r = plain (fn m), fn_length_r = fn_length m, truncateArgs_r = truncateArgs m,
      cache_r = cache m, getKey_r = getKey m\<rparr>"

text \<open>
  What happens to a memoized function over time: it is called, and an entry of its
  cache is deleted (by \<open>memoized.cache.delete(key)\<close>, or by the handler of a rejected
  promise, which does the same). A call can evict entries when the cache is an
  \<open>LruCache\<close>.
\<close>

datatype 'k mevent = Called jsval "jsval list" | Deleted 'k

fun mstep ::
  "nat \<Rightarrow> ('c, 'g, 'w, 'k) reentrant_memoizer \<Rightarrow> ('c, 'g, 'w, 'k) memo_state \<Rightarrow> 'k mevent \<Rightarrow>
   ('c, 'g, 'w, 'k) memo_state" where
  "mstep depth m s (Called this args) = snd (memoized_r depth m this args s)"
| "mstep depth m s (Deleted key) = s\<lparr>cache_state := c_delete (cache_r m) key (cache_state s)\<rparr>"

definition mrun ::
  "nat \<Rightarrow> ('c, 'g, 'w, 'k) reentrant_memoizer \<Rightarrow> ('c, 'g, 'w, 'k) memo_state \<Rightarrow> 'k mevent list \<Rightarrow>
   ('c, 'g, 'w, 'k) memo_state" where
  "mrun depth m s evs = foldl (mstep depth m) s evs"


text \<open>\<open>memoize(fn)\<close> and \<open>memoize(fn, { truncateArgs })\<close> for such a function.\<close>

definition memoize_r ::
  "(jsval \<Rightarrow> jsval list \<Rightarrow> 'w \<Rightarrow> 'w body) \<Rightarrow> nat \<Rightarrow> bool option \<Rightarrow>
   ((string, jsval) jsmap, serializer, 'w, string) reentrant_memoizer" where
  "memoize_r f n opt_truncateArgs =
     \<lparr>fn_r = f, fn_length_r = n,
      truncateArgs_r = (case opt_truncateArgs of None \<Rightarrow> False | Some b \<Rightarrow> b),
      cache_r = Map_cache, getKey_r = getKey_v1\<rparr>"

section \<open>The memoized \<open>memoize\<close> (memoize.ts lines 157-190)\<close>

text \<open>
  \<open>memoize_ = memoize(memoize, { cache: _cache, getKey(fn, options) { \<dots> } })\<close> with
  \<open>_cache = new LruCache(100)\<close> and \<open>_getKey = _serializeArgList(_cache)\<close>, the
  serializer of lines 238-300.

  An options object is a reference; \<open>heap\<close> gives the own enumerable properties of the
  objects, in the order \<open>Object.entries\<close> lists them. \<open>options ?? {}\<close> has no entries
  when \<open>options\<close> is \<open>undefined\<close> or \<open>null\<close>; the declared type of \<open>options\<close> admits
  nothing but objects and \<open>undefined\<close>, and other values have no entries here.
\<close>

definition Object_entries :: "(nat \<rightharpoonup> (string \<times> jsval) list) \<Rightarrow> jsval \<Rightarrow> (string \<times> jsval) list" where
  "Object_entries heap v =
     (case v of
        Object n \<Rightarrow> (case heap n of Some es \<Rightarrow> es | None \<Rightarrow> [])
      | _ \<Rightarrow> [])"

text \<open>A parameter of a function called with the argument list: \<open>undefined\<close> when missing.\<close>

definition parameter :: "jsval list \<Rightarrow> nat \<Rightarrow> jsval" where
  "parameter args n = (if n < length args then args ! n else Undefined)"

text \<open>
  \<open>Object.entries(options ?? {}).sort(([a], [b]) => a > b ? 1 : a < b ? -1 : 0)
  .map(([, v]) => v)\<close>: the values in the order of their names (the names of one object
  are distinct, so the comparator leaves one order).
\<close>

definition optionVals :: "(nat \<rightharpoonup> (string \<times> jsval) list) \<Rightarrow> jsval \<Rightarrow> jsval list" where
  "optionVals heap options = map snd (sort_key fst (Object_entries heap options))"

text \<open>The \<open>getKey\<close> option, lines 182-187; \<open>_getKey\<close> is called without a receiver.\<close>

definition memoize_getKey ::
  "(nat \<rightharpoonup> (string \<times> jsval) list) \<Rightarrow> jsval \<Rightarrow> jsval list \<Rightarrow> serializer \<Rightarrow>
   (thrown + string) \<times> serializer" where
  "memoize_getKey heap this args st =
     getKey_v2 Undefined (parameter args 0 # optionVals heap (parameter args 1)) st"

text \<open>
  \<open>memoize\<close> as the function that is memoized. What matters of its result is its
  identity: each call returns a new function object, taken from the supply that is the
  state. It throws a \<open>TypeError\<close> when \<open>fn\<close> is \<open>undefined\<close> or \<open>null\<close> (\<open>fn.length\<close>
  is read, line 232) and for no other arguments.
\<close>

definition memoize_fn :: "jsval \<Rightarrow> jsval list \<Rightarrow> nat \<Rightarrow> (thrown + jsval) \<times> nat" where
  "memoize_fn this args supply =
     (if parameter args 0 = Undefined \<or> parameter args 0 = Null then (Inl TypeError, supply)
      else (Inr (Function supply), supply + 1))"

definition memoize_self ::
  "(nat \<rightharpoonup> (string \<times> jsval) list) \<Rightarrow> ((string, jsval) LruCache, serializer, nat, string) memoizer" where
  "memoize_self heap =
     \<lparr>fn = memoize_fn, fn_length = 2, truncateArgs = False, cache = Lru_cache,
      getKey = memoize_getKey heap\<rparr>"

definition memoize_self_state :: "nat \<Rightarrow> ((string, jsval) LruCache, serializer, nat, string) memo_state" where
  "memoize_self_state supply = new_state (new_LruCache 100) new_serializer supply"

text \<open>
  What happens to the memoized \<open>memoize\<close> over time: it is called, a value becomes
  unreachable and is collected, the registry of its serializer calls back with a held
  value (lines 245-250, on the \<open>LruCache\<close>).
\<close>

datatype self_event = Memoize jsval "jsval list" | Unreachable jsval | Finalized string

fun self_step ::
  "(nat \<rightharpoonup> (string \<times> jsval) list) \<Rightarrow>
   ((string, jsval) LruCache, serializer, nat, string) memo_state \<Rightarrow> self_event \<Rightarrow>
   ((string, jsval) LruCache, serializer, nat, string) memo_state" where
  "self_step heap s (Memoize this args) = snd (memoized (memoize_self heap) this args s)"
| "self_step heap s (Unreachable x) = s\<lparr>key_state := collect x (key_state s)\<rparr>"
| "self_step heap s (Finalized keySegment) =
     (case registry_callback Lru_cache keySegment (key_state s, cache_state s) of
        (g, c) \<Rightarrow> s\<lparr>key_state := g, cache_state := c\<rparr>)"

definition self_run ::
  "(nat \<rightharpoonup> (string \<times> jsval) list) \<Rightarrow>
   ((string, jsval) LruCache, serializer, nat, string) memo_state \<Rightarrow> self_event list \<Rightarrow>
   ((string, jsval) LruCache, serializer, nat, string) memo_state" where
  "self_run heap s evs = foldl (self_step heap) s evs"

section \<open>Notions the statements use\<close>

text \<open>
  The values the callback renders without looking at its state: the ones its first
  branches return for (memoize.ts lines 101-109), with the segment they return.
\<close>

fun primitive :: "jsval \<Rightarrow> bool" where
  "primitive Undefined = True"
| "primitive Null = True"
| "primitive (Boolean _) = True"
| "primitive (Number _) = True"
| "primitive (String _) = True"
| "primitive (BigInt _) = True"
| "primitive _ = False"

fun primitive_segment :: "jsval \<Rightarrow> string" where
  "primitive_segment Undefined = ''undefined''"
| "primitive_segment (BigInt b) = string_of_int b @ ''n''"
| "primitive_segment v = (case JSON_stringify v of Some s \<Rightarrow> s | None \<Rightarrow> [])"

text \<open>The characters of a decimal numeral as the language prints it.\<close>

definition numeral_char :: "char \<Rightarrow> bool" where
  "numeral_char c = (c \<in> set ''0123456789.e+-'')"

text \<open>
  Two values are equal as values when either equality of the language says so: \<open>===\<close>
  or \<open>SameValueZero\<close>. (\<open>Object.is\<close> holds of fewer pairs than \<open>SameValueZero\<close>: it tells
  the two zeros apart.)
\<close>

definition value_equal :: "jsval \<Rightarrow> jsval \<Rightarrow> bool" where
  "value_equal x y = (strict_equals x y \<or> same_value_zero x y)"

text \<open>
  What happens to a serializer of memoize.ts (lines 84-133) and its cache over time:
  \<open>getKey\<close> is called, a value becomes unreachable and is collected, the registry
  calls back with a held value.
\<close>

datatype sevent = GetKey jsval "jsval list" | Collect jsval | Cleanup string

fun sstep :: "('c, string) cache_ops \<Rightarrow> serializer \<times> 'c \<Rightarrow> sevent \<Rightarrow> serializer \<times> 'c" where
  "sstep co (st, c) (GetKey this args) = (snd (getKey_v1 this args st), c)"
| "sstep co (st, c) (Collect x) = (collect x st, c)"
| "sstep co (st, c) (Cleanup keySegment) = registry_callback co keySegment (st, c)"

definition srun :: "('c, string) cache_ops \<Rightarrow> serializer \<times> 'c \<Rightarrow> sevent list \<Rightarrow> serializer \<times> 'c" where
  "srun co s evs = foldl (sstep co) s evs"

text \<open>
  The invariant of the \<open>WeakMap\<close>: its segments are tokens of numbers below the counter,
  and no two values share one.
\<close>

definition serializer_inv :: "serializer \<Rightarrow> bool" where
  "serializer_inv st =
     ((\<forall>x s. weakKeyToKeySegmentCache st x = Some s \<longrightarrow> (\<exists>n<next_i st. s = ref_token n)) \<and>
      (\<forall>x y s. weakKeyToKeySegmentCache st x = Some s \<longrightarrow>
                weakKeyToKeySegmentCache st y = Some s \<longrightarrow> x = y))"

text \<open>The \<open>WeakMap\<close> of the second state has every entry of the first.\<close>

definition extends :: "serializer \<Rightarrow> serializer \<Rightarrow> bool" where
  "extends st st' =
     (\<forall>x s. weakKeyToKeySegmentCache st x = Some s \<longrightarrow> weakKeyToKeySegmentCache st' x = Some s)"

text \<open>
  The \<open>WeakMap\<close> of the second state has still the entries that the first has for the
  values \<open>xs\<close>.
\<close>

definition keeps :: "jsval list \<Rightarrow> serializer \<Rightarrow> serializer \<Rightarrow> bool" where
  "keeps xs st st' =
     (\<forall>x\<in>set xs. \<forall>s. weakKeyToKeySegmentCache st x = Some s \<longrightarrow>
        weakKeyToKeySegmentCache st' x = Some s)"

text \<open>
  Two options objects for the examples, with the same two properties in different
  orders: \<open>{ truncateArgs: true, cache: c }\<close> and \<open>{ cache: c, truncateArgs: true }\<close>.
\<close>

definition two_options :: "nat \<rightharpoonup> (string \<times> jsval) list" where
  "two_options =
     [5 \<mapsto> [(''truncateArgs'', Boolean True), (''cache'', Object 7)],
      6 \<mapsto> [(''cache'', Object 7), (''truncateArgs'', Boolean True)]]"

text \<open>
  A function for the examples, after the tests of the repository: it counts its
  invocations in its state and returns \<open>0 - n\<close>.
\<close>

definition negate :: "jsval \<Rightarrow> jsval list \<Rightarrow> nat \<Rightarrow> (thrown + jsval) \<times> nat" where
  "negate this args numTimesCalled =
     (case args of
        Number (Finite n) # _ \<Rightarrow> (Inr (Number (Finite (0 - n))), numTimesCalled + 1)
      | _ \<Rightarrow> (Inr (Number NaN), numTimesCalled + 1))"

text \<open>
  \<open>memoize(negate, { cache: new LruCache(n) })\<close>: the closure, with the default
  serializer of memoize.ts as the key function.
\<close>

definition memoize_lru ::
  "(jsval \<Rightarrow> jsval list \<Rightarrow> 'w \<Rightarrow> (thrown + jsval) \<times> 'w) \<Rightarrow> nat \<Rightarrow>
   ((string, jsval) LruCache, serializer, 'w, string) memoizer" where
  "memoize_lru f n =
     \<lparr>fn = f, fn_length = n, truncateArgs = False, cache = Lru_cache, getKey = getKey_v1\<rparr>"



text \<open>
  Two functions that call the memoized function. \<open>fib\<close> of the documentation of
  \<open>memoize\<close>: \<open>(n: bigint) => n <= 2n ? 1n : fib(n - 1n) + fib(n - 2n)\<close>, which also
  counts its invocations. And a function that, the first time it is invoked, calls the
  memoized function with its own arguments and adds 1 to what it gets:
  \<open>(x) => first ? (first = false, m(x) + 1) : 0\<close>.
\<close>

definition fib :: "jsval \<Rightarrow> jsval list \<Rightarrow> nat \<Rightarrow> nat body" where
  "fib this args numTimesCalled =
     (case args of
        BigInt n # _ \<Rightarrow>
          (if n \<le> 2 then Done (Inr (BigInt 1)) (numTimesCalled + 1)
           else CallMemoized Undefined [BigInt (n - 1)] (numTimesCalled + 1)
                  (\<lambda>a w1. case a of
                     Inr (BigInt x) \<Rightarrow>
                       CallMemoized Undefined [BigInt (n - 2)] w1
                         (\<lambda>b w2. case b of
                            Inr (BigInt y) \<Rightarrow> Done (Inr (BigInt (x + y))) w2
                          | Inr _ \<Rightarrow> Done (Inl TypeError) w2
                          | Inl e \<Rightarrow> Done (Inl e) w2)
                   | Inr _ \<Rightarrow> Done (Inl TypeError) w1
                   | Inl e \<Rightarrow> Done (Inl e) w1))
      | _ \<Rightarrow> Done (Inl TypeError) (numTimesCalled + 1))"

definition once_more :: "jsval \<Rightarrow> jsval list \<Rightarrow> bool \<Rightarrow> bool body" where
  "once_more this args first =
     (if first
      then CallMemoized Undefined args False
             (\<lambda>r w. case r of
                Inr (Number (Finite n)) \<Rightarrow> Done (Inr (Number (Finite (n + 1)))) w
              | Inr _ \<Rightarrow> Done (Inr (Number NaN)) w
              | Inl e \<Rightarrow> Done (Inl e) w)
      else Done (Inr (Number (Finite 0))) first)"

text \<open>
  When a key was last used: the position, counted from 1, of the last \<open>has\<close>, \<open>get\<close>
  or \<open>set\<close> for it in a sequence of operations, and 0 when there is none. For a key
  that is in the cache after the sequence, that operation found or put the key there, so
  it is the last time the entry was touched.
\<close>

fun uses :: "('k, 'v) lru_op \<Rightarrow> 'k \<Rightarrow> bool" where
  "uses (Has k) k' = (k = k')"
| "uses (Get k) k' = (k = k')"
| "uses (Set k v) k' = (k = k')"
| "uses (Delete k) k' = False"

definition last_use :: "('k, 'v) lru_op list \<Rightarrow> 'k \<Rightarrow> nat" where
  "last_use ops k = length (dropWhile (\<lambda>x. \<not> uses x k) (rev ops))"

section \<open>Facts about \<open>Map\<close>\<close>

lemma Map_has_iff: "Map_has k m \<longleftrightarrow> k \<in> set (Map_keys m)"
  by (simp add: Map_has_def Map_keys_def map_of_eq_None_iff)

lemma Map_keys_delete: "Map_keys (Map_delete k m) = removeAll k (Map_keys m)"
  by (induction m) (auto simp: Map_keys_def Map_delete_def)

lemma Map_has_delete [simp]: "\<not> Map_has k (Map_delete k m)"
  by (simp add: Map_has_iff Map_keys_delete)

lemma Map_has_delete_other: "k' \<noteq> k \<Longrightarrow> Map_has k' (Map_delete k m) = Map_has k' m"
  by (simp add: Map_has_iff Map_keys_delete)

lemma Map_size_delete_le: "Map_size (Map_delete k m) \<le> Map_size m"
  by (simp add: Map_size_def Map_delete_def)

lemma Map_set_delete: "Map_set k v (Map_delete k m) = Map_delete k m @ [(k, v)]"
  by (simp add: Map_set_def)

lemma Map_keys_overwrite: "Map_keys (Map_overwrite k v m) = Map_keys m"
  by (induction m) (auto simp: Map_keys_def)

lemma Map_keys_set:
  "Map_keys (Map_set k v m) = (if Map_has k m then Map_keys m else Map_keys m @ [k])"
  by (simp add: Map_set_def Map_keys_overwrite) (simp add: Map_keys_def)

lemma distinct_Map_delete: "distinct (Map_keys m) \<Longrightarrow> distinct (Map_keys (Map_delete k m))"
  by (simp add: Map_keys_delete distinct_removeAll)

lemma distinct_Map_set: "distinct (Map_keys m) \<Longrightarrow> distinct (Map_keys (Map_set k v m))"
  by (simp add: Map_keys_set Map_has_iff)

lemma Map_delete_absent: "\<not> Map_has k m \<Longrightarrow> Map_delete k m = m"
  by (induction m) (auto simp: Map_has_iff Map_keys_def Map_delete_def)

lemma Map_size_delete_present:
  "Map_has k m \<Longrightarrow> distinct (Map_keys m) \<Longrightarrow> Suc (Map_size (Map_delete k m)) = Map_size m"
proof (induction m)
  case Nil
  then show ?case by (simp add: Map_has_def)
next
  case (Cons e m)
  show ?case
  proof (cases "fst e = k")
    case True
    with Cons.prems have "\<not> Map_has k m"
      by (simp add: Map_has_iff Map_keys_def)
    then have "Map_delete k m = m" by (rule Map_delete_absent)
    with True show ?thesis by (simp add: Map_delete_def Map_size_def)
  next
    case False
    with Cons.prems have "Map_has k m" "distinct (Map_keys m)"
      by (auto simp: Map_has_iff Map_keys_def)
    with Cons.IH have "Suc (Map_size (Map_delete k m)) = Map_size m" by simp
    with False show ?thesis by (simp add: Map_delete_def Map_size_def)
  qed
qed

section \<open>Facts about \<open>LruCache\<close>\<close>

lemma entries_setMostRecentlyUsed:
  "entries (setMostRecentlyUsed k v c) = Map_delete k (entries c) @ [(k, v)]"
  by (simp add: setMostRecentlyUsed_def Map_set_delete)

lemma maxSize_setMostRecentlyUsed [simp]: "maxSize (setMostRecentlyUsed k v c) = maxSize c"
  by (simp add: setMostRecentlyUsed_def)

lemma maxSize_pruneToMaxSize [simp]: "maxSize (pruneToMaxSize c) = maxSize c"
  by (simp add: pruneToMaxSize_def Map_keys_def split: list.splits)

lemma entries_pruneToMaxSize:
  "distinct (Map_keys (entries c)) \<Longrightarrow>
   entries (pruneToMaxSize c) =
     (if Map_size (entries c) > maxSize c then tl (entries c) else entries c)"
proof (cases "entries c")
  case Nil
  then show ?thesis by (simp add: pruneToMaxSize_def Map_keys_def)
next
  case (Cons e m)
  assume "distinct (Map_keys (entries c))"
  with Cons have "\<not> Map_has (fst e) m"
    by (simp add: Map_has_iff Map_keys_def)
  then have "Map_delete (fst e) m = m" by (rule Map_delete_absent)
  with Cons show ?thesis
    by (simp add: pruneToMaxSize_def Map_keys_def Map_delete_def)
qed

lemma maxSize_lru_step [simp]: "maxSize (lru_step c x) = maxSize c"
  by (cases x)
     (simp_all add: lru_has_def lru_get_def lru_set_def lru_delete_def split: option.splits)

lemma maxSize_lru_run [simp]: "maxSize (lru_run c ops) = maxSize c"
  unfolding lru_run_def by (induction ops arbitrary: c) simp_all

lemma distinct_setMostRecentlyUsed:
  "distinct (Map_keys (entries c)) \<Longrightarrow> distinct (Map_keys (entries (setMostRecentlyUsed k v c)))"
  by (simp add: setMostRecentlyUsed_def distinct_Map_set distinct_Map_delete)

lemma distinct_pruneToMaxSize:
  "distinct (Map_keys (entries c)) \<Longrightarrow> distinct (Map_keys (entries (pruneToMaxSize c)))"
  by (simp add: pruneToMaxSize_def distinct_Map_delete split: list.splits)

lemma distinct_lru_step:
  "distinct (Map_keys (entries c)) \<Longrightarrow> distinct (Map_keys (entries (lru_step c x)))"
  by (cases x)
     (simp_all add: lru_has_def lru_get_def lru_set_def lru_delete_def
        distinct_setMostRecentlyUsed distinct_pruneToMaxSize distinct_Map_delete
        split: option.splits)

lemma size_setMostRecentlyUsed_present:
  assumes "Map_has k (entries c)" "distinct (Map_keys (entries c))"
  shows "Map_size (entries (setMostRecentlyUsed k v c)) = Map_size (entries c)"
  using Map_size_delete_present [OF assms]
  by (simp add: entries_setMostRecentlyUsed Map_size_def)

lemma size_setMostRecentlyUsed_le:
  "Map_size (entries (setMostRecentlyUsed k v c)) \<le> Suc (Map_size (entries c))"
  using Map_size_delete_le [of k "entries c"]
  by (simp add: entries_setMostRecentlyUsed Map_size_def)

lemma size_pruneToMaxSize:
  assumes "distinct (Map_keys (entries c))" "Map_size (entries c) \<le> Suc (maxSize c)"
  shows "Map_size (entries (pruneToMaxSize c)) \<le> maxSize c"
  using assms by (auto simp: entries_pruneToMaxSize Map_size_def)

lemma lru_inv_new: "lru_inv (new_LruCache n)"
  by (simp add: lru_inv_def new_LruCache_def Map_keys_def Map_size_def)

lemma lru_inv_set:
  assumes "lru_inv c"
  shows "lru_inv (lru_set k v c)"
proof -
  let ?c = "setMostRecentlyUsed k v c"
  from assms have d: "distinct (Map_keys (entries ?c))"
    by (simp add: lru_inv_def distinct_setMostRecentlyUsed)
  from assms have "Map_size (entries ?c) \<le> Suc (maxSize ?c)"
    using size_setMostRecentlyUsed_le [of k v c] by (simp add: lru_inv_def)
  with d have "Map_size (entries (pruneToMaxSize ?c)) \<le> maxSize ?c"
    by (rule size_pruneToMaxSize)
  with d show ?thesis
    by (simp add: lru_inv_def lru_set_def distinct_pruneToMaxSize)
qed

lemma lru_inv_touch:
  assumes "lru_inv c" "Map_get k (entries c) = Some v"
  shows "lru_inv (setMostRecentlyUsed k v c)"
proof -
  from assms(2) have "Map_has k (entries c)"
    by (simp add: Map_has_def Map_get_def)
  with assms(1) show ?thesis
    by (simp add: lru_inv_def distinct_setMostRecentlyUsed size_setMostRecentlyUsed_present)
qed

lemma lru_inv_delete: "lru_inv c \<Longrightarrow> lru_inv (lru_delete k c)"
  using Map_size_delete_le [of k "entries c"]
  by (simp add: lru_inv_def lru_delete_def distinct_Map_delete)

lemma lru_inv_step: "lru_inv c \<Longrightarrow> lru_inv (lru_step c x)"
  by (cases x)
     (auto simp: lru_has_def lru_get_def lru_inv_set lru_inv_delete lru_inv_touch
        split: option.splits)

lemma lru_inv_run: "lru_inv c \<Longrightarrow> lru_inv (lru_run c ops)"
  unfolding lru_run_def by (induction ops arbitrary: c) (simp_all add: lru_inv_step)

lemma lru_set_entries:
  assumes "lru_inv c"
  shows "entries (lru_set k v c) =
     (if Map_has k (entries c) then Map_delete k (entries c) @ [(k, v)]
      else if Map_size (entries c) < maxSize c then entries c @ [(k, v)]
      else tl (entries c @ [(k, v)]))"
proof -
  let ?c = "setMostRecentlyUsed k v c"
  from assms have d: "distinct (Map_keys (entries ?c))"
    by (simp add: lru_inv_def distinct_setMostRecentlyUsed)
  show ?thesis
  proof (cases "Map_has k (entries c)")
    case True
    with assms have "Map_size (entries ?c) \<le> maxSize ?c"
      by (simp add: lru_inv_def size_setMostRecentlyUsed_present)
    with d True show ?thesis
      by (simp add: lru_set_def entries_pruneToMaxSize entries_setMostRecentlyUsed)
  next
    case False
    then have "entries ?c = entries c @ [(k, v)]"
      by (simp add: entries_setMostRecentlyUsed Map_delete_absent)
    with d False assms show ?thesis
      by (auto simp add: lru_set_def entries_pruneToMaxSize Map_size_def lru_inv_def)
  qed
qed

lemmas lru_eval =
  lru_run_def new_LruCache_def lru_set_def lru_has_def lru_get_def lru_delete_def
  setMostRecentlyUsed_def pruneToMaxSize_def
  Map_set_def Map_delete_def Map_has_def Map_get_def Map_size_def Map_keys_def

subsection \<open>The order of the entries is the order of last use\<close>

lemma last_use_snoc:
  "last_use (ops @ [x]) k = (if uses x k then Suc (length ops) else last_use ops k)"
  by (simp add: last_use_def)

lemma last_use_le: "last_use ops k \<le> length ops"
  unfolding last_use_def using length_dropWhile_le [of _ "rev ops"] by simp

lemma sorted_wrt_removeAll: "sorted_wrt P xs \<Longrightarrow> sorted_wrt P (removeAll k xs)"
  by (induction xs) auto

lemma sorted_wrt_tl: "sorted_wrt P xs \<Longrightarrow> sorted_wrt P (tl xs)"
  by (cases xs) auto

lemma lru_run_snoc: "lru_run c (ops @ [x]) = lru_step (lru_run c ops) x"
  by (simp add: lru_run_def)

lemma keys_setMostRecentlyUsed:
  "Map_keys (entries (setMostRecentlyUsed k v c)) = removeAll k (Map_keys (entries c)) @ [k]"
  by (simp add: entries_setMostRecentlyUsed Map_keys_delete [symmetric]) (simp add: Map_keys_def)

lemma keys_pruneToMaxSize:
  "distinct (Map_keys (entries c)) \<Longrightarrow>
   Map_keys (entries (pruneToMaxSize c)) = Map_keys (entries c) \<or>
   Map_keys (entries (pruneToMaxSize c)) = tl (Map_keys (entries c))"
  by (simp add: entries_pruneToMaxSize) (simp add: Map_keys_def map_tl)

text \<open>
  The keys of a cache that started empty, oldest first, after the operations \<open>ops\<close>:
  each was used later than the one before it.
\<close>

lemma entries_in_order_of_use:
  "sorted_wrt (<) (map (last_use ops) (Map_keys (entries (lru_run (new_LruCache n) ops))))"
proof (induction ops rule: rev_induct)
  case Nil
  show ?case by (simp add: lru_run_def new_LruCache_def Map_keys_def)
next
  case (snoc x ops)
  let ?c = "lru_run (new_LruCache n) ops"
  let ?ks = "Map_keys (entries ?c)"
  have inv: "lru_inv ?c" by (rule lru_inv_run) (rule lru_inv_new)
  have touch: "sorted_wrt (<) (map (last_use (ops @ [x])) (removeAll k ?ks @ [k]))"
    if "uses x k" and "\<And>k'. k' \<noteq> k \<Longrightarrow> \<not> uses x k'" for k
  proof -
    have e: "map (last_use (ops @ [x])) (removeAll k ?ks) = map (last_use ops) (removeAll k ?ks)"
      using that(2) by (simp add: last_use_snoc)
    have s: "sorted_wrt (<) (map (last_use ops) (removeAll k ?ks))"
      using snoc.IH by (simp add: sorted_wrt_map sorted_wrt_removeAll)
    have l: "last_use ops k' < last_use (ops @ [x]) k" for k'
      using that(1) last_use_le [of ops k'] by (simp add: last_use_snoc)
    have "sorted_wrt (<) (map (last_use ops) (removeAll k ?ks) @ [last_use (ops @ [x]) k])"
      using s l by (auto simp: sorted_wrt_append)
    then show ?thesis by (simp only: map_append e list.map)
  qed
  have same: "sorted_wrt (<) (map (last_use (ops @ [x])) ks)"
    if "sorted_wrt (<) (map (last_use ops) ks)" and "\<And>k. k \<in> set ks \<Longrightarrow> \<not> uses x k" for ks
  proof -
    from that(2) have "map (last_use (ops @ [x])) ks = map (last_use ops) ks"
      by (simp add: last_use_snoc)
    then show ?thesis using that(1) by (simp only:)
  qed
  show ?case
  proof (cases x)
    case (Has k)
    show ?thesis
    proof (cases "Map_get k (entries ?c)")
      case None
      then have "k \<notin> set ?ks" by (simp add: Map_has_iff [symmetric] Map_has_def Map_get_def)
      with None Has same [OF snoc.IH] show ?thesis
        by (auto simp: lru_run_snoc lru_has_def)
    next
      case (Some v)
      with Has touch [of k] show ?thesis
        by (simp add: lru_run_snoc lru_has_def keys_setMostRecentlyUsed)
    qed
  next
    case (Get k)
    show ?thesis
    proof (cases "Map_get k (entries ?c)")
      case None
      then have "k \<notin> set ?ks" by (simp add: Map_has_iff [symmetric] Map_has_def Map_get_def)
      with None Get same [OF snoc.IH] show ?thesis
        by (auto simp: lru_run_snoc lru_get_def)
    next
      case (Some v)
      with Get touch [of k] show ?thesis
        by (simp add: lru_run_snoc lru_get_def keys_setMostRecentlyUsed)
    qed
  next
    case (Set k v)
    let ?c1 = "setMostRecentlyUsed k v ?c"
    from Set touch [of k]
    have s1: "sorted_wrt (<) (map (last_use (ops @ [x])) (Map_keys (entries ?c1)))"
      by (simp add: keys_setMostRecentlyUsed)
    from inv have "distinct (Map_keys (entries ?c1))"
      by (simp add: lru_inv_def distinct_setMostRecentlyUsed)
    from keys_pruneToMaxSize [OF this] s1
    have "sorted_wrt (<) (map (last_use (ops @ [x])) (Map_keys (entries (pruneToMaxSize ?c1))))"
      by (auto simp: map_tl sorted_wrt_tl)
    with Set show ?thesis by (simp add: lru_run_snoc lru_set_def)
  next
    case (Delete k)
    have "sorted_wrt (<) (map (last_use ops) (removeAll k ?ks))"
      using snoc.IH by (simp add: sorted_wrt_map sorted_wrt_removeAll)
    from same [OF this] Delete show ?thesis
      by (simp add: lru_run_snoc lru_delete_def Map_keys_delete)
  qed
qed

section \<open>The claims about \<open>LruCache\<close>\<close>

text \<open>
  C5. A cache made by \<open>new LruCache(maxSize)\<close> with \<open>maxSize \<ge> 1\<close>, after any sequence
  of \<open>has\<close>, \<open>get\<close>, \<open>set\<close> and \<open>delete\<close>, holds at most \<open>maxSize\<close> entries; so it does
  after every \<open>set\<close> of the sequence, and after one more \<open>set\<close>.
\<close>

theorem lru_size_never_exceeds_maxSize:
  "1 \<le> n \<Longrightarrow>
   Map_size (entries (lru_run (new_LruCache n) ops)) \<le> n \<and>
   Map_size (entries (lru_set k v (lru_run (new_LruCache n) ops))) \<le> n"
proof -
  have inv: "lru_inv (lru_run (new_LruCache n) ops)"
    by (rule lru_inv_run) (rule lru_inv_new)
  then have "lru_inv (lru_set k v (lru_run (new_LruCache n) ops))"
    by (rule lru_inv_set)
  with inv show ?thesis
    by (simp add: lru_inv_def new_LruCache_def lru_set_def)
qed

text \<open>The bound at \<open>maxSize = 1\<close>, on a sequence that uses all four operations.\<close>

theorem lru_size_never_exceeds_maxSize_witness:
  "(1::nat) \<le> 1 \<and>
   Map_size (entries (lru_run (new_LruCache 1)
      [Set (0::nat) ''a'', Has 0, Set 1 ''b'', Get 1, Delete 0, Set 2 ''c''])) \<le> 1 \<and>
   Map_size (entries (lru_set 3 ''d'' (lru_run (new_LruCache 1)
      [Set (0::nat) ''a'', Has 0, Set 1 ''b'', Get 1, Delete 0, Set 2 ''c'']))) \<le> 1"
  using lru_size_never_exceeds_maxSize
    [of 1 "[Set (0::nat) ''a'', Has 0, Set 1 ''b'', Get 1, Delete 0, Set 2 ''c'']" 3 "''d''"]
  by simp

text \<open>
  C6. In a cache that started empty (distinct keys, at most \<open>maxSize\<close> of them), \<open>set\<close>
  of a key that is present removes its entry and appends the new one, evicting nothing;
  \<open>set\<close> of a new key appends the entry and, when the size then exceeds \<open>maxSize\<close>,
  drops exactly the first entry. The entries are in the order of their last use by
  \<open>has\<close>, \<open>get\<close> or \<open>set\<close>, so the first entry is the least recently used one.
  With \<open>maxSize = 3\<close> and sets of the keys 1, 2, 1, 3, 4, key 2 is in the cache before
  the last \<open>set\<close>, and afterwards the keys are 1, 3, 4.
\<close>

theorem lru_set_most_recent:
  "lru_inv c \<Longrightarrow>
   entries (lru_set k v c) =
     (if Map_has k (entries c) then Map_delete k (entries c) @ [(k, v)]
      else if Map_size (entries c) < maxSize c then entries c @ [(k, v)]
      else tl (entries c @ [(k, v)])) \<and>
   sorted_wrt (<) (map (last_use ops) (Map_keys (entries (lru_run (new_LruCache n) ops)))) \<and>
   Map_keys (entries (lru_run (new_LruCache 3)
      [Set (1::nat) v1, Set 2 v2, Set 1 v3, Set 3 v4])) = [2, 1, 3] \<and>
   Map_keys (entries (lru_run (new_LruCache 3)
      [Set (1::nat) v1, Set 2 v2, Set 1 v3, Set 3 v4, Set 4 v5])) = [1, 3, 4] \<and>
   \<not> Map_has 2 (entries (lru_run (new_LruCache 3)
      [Set (1::nat) v1, Set 2 v2, Set 1 v3, Set 3 v4, Set 4 v5]))"
proof -
  assume "lru_inv c"
  then have "entries (lru_set k v c) =
     (if Map_has k (entries c) then Map_delete k (entries c) @ [(k, v)]
      else if Map_size (entries c) < maxSize c then entries c @ [(k, v)]
      else tl (entries c @ [(k, v)]))"
    by (rule lru_set_entries)
  moreover have "entries (lru_run (new_LruCache 3)
      [Set (1::nat) v1, Set 2 v2, Set 1 v3, Set 3 v4]) = [(2, v2), (1, v3), (3, v4)]"
    by (simp add: lru_eval)
  moreover have "entries (lru_run (new_LruCache 3)
      [Set (1::nat) v1, Set 2 v2, Set 1 v3, Set 3 v4, Set 4 v5]) = [(1, v3), (3, v4), (4, v5)]"
    by (simp add: lru_eval)
  moreover note entries_in_order_of_use [of ops n]
  ultimately show ?thesis
    by (simp add: Map_keys_def Map_has_def)
qed

text \<open>A full cache of two entries: the new key 3 evicts key 1, the oldest.\<close>

theorem lru_set_most_recent_witness:
  "lru_inv \<lparr>maxSize = 2, entries = [(1::nat, ''a''), (2, ''b'')]\<rparr> \<and>
   entries (lru_set 3 ''c'' \<lparr>maxSize = 2, entries = [(1::nat, ''a''), (2, ''b'')]\<rparr>) =
     [(2, ''b''), (3, ''c'')]"
proof -
  have inv: "lru_inv \<lparr>maxSize = 2, entries = [(1::nat, ''a''), (2, ''b'')]\<rparr>"
    by (simp add: lru_inv_def Map_keys_def Map_size_def)
  from lru_set_most_recent [OF inv, of 3 "''c''", THEN conjunct1] inv show ?thesis
    by (simp add: Map_has_def Map_size_def)
qed

section \<open>Facts about the serializers\<close>

subsection \<open>Digits\<close>

lemma string_of_nat_0: "string_of_nat 0 = ''0''"
  by (simp add: string_of_nat.simps digit_char_def)

lemma string_of_int_0: "string_of_int 0 = ''0''"
  by (simp add: string_of_int_def string_of_nat_0)

lemma string_of_nat_small: "n < 10 \<Longrightarrow> string_of_nat n = [digit_char n]"
  by (simp add: string_of_nat.simps)

lemma string_of_nat_big:
  "\<not> n < 10 \<Longrightarrow> string_of_nat n = string_of_nat (n div 10) @ [digit_char (n mod 10)]"
  by (subst string_of_nat.simps) simp

lemma string_of_nat_nonempty: "string_of_nat n \<noteq> []"
  by (cases "n < 10") (simp_all add: string_of_nat_small string_of_nat_big)

lemma string_of_int_nonempty: "string_of_int i \<noteq> []"
  by (simp add: string_of_int_def string_of_nat_nonempty)

subsection \<open>The numeral of a number\<close>

lemma strip_zeros_spec:
  "s \<noteq> 0 \<Longrightarrow> strip_zeros s z = (t, y) \<Longrightarrow>
   z \<le> y \<and> s = t * 10 ^ (y - z) \<and> \<not> 10 dvd t \<and> t \<noteq> 0"
proof (induction s z rule: strip_zeros.induct)
  case (1 s z)
  show ?case
  proof (cases "s mod 10 = 0")
    case True
    with "1.prems" have r: "strip_zeros (s div 10) (z + 1) = (t, y)"
      by (subst (asm) strip_zeros.simps) simp
    from True "1.prems" have nz: "s div 10 \<noteq> 0" by auto
    from "1.IH" [OF _ nz r] True "1.prems"
    have le: "z + 1 \<le> y" and eq: "s div 10 = t * 10 ^ (y - (z + 1))"
      and t: "\<not> 10 dvd t" "t \<noteq> 0" by simp_all
    from True have "s = 10 * (s div 10)" by auto
    also have "\<dots> = t * 10 ^ Suc (y - (z + 1))" by (simp add: eq)
    also from le have "Suc (y - (z + 1)) = y - z" by simp
    finally show ?thesis using le t by simp
  next
    case False
    with "1.prems" have "(t, y) = (s, z)"
      by (subst (asm) strip_zeros.simps) simp
    with False "1.prems" show ?thesis by (simp add: dvd_eq_mod_eq_0)
  qed
qed

lemma decimal_unique_le:
  fixes t t' :: nat
  assumes "\<not> 10 dvd t" "t * 10 ^ a = t' * 10 ^ b" "a \<le> b"
  shows "t = t' \<and> a = b"
proof -
  from assms(3) have "t' * 10 ^ b = (t' * 10 ^ (b - a)) * 10 ^ a"
    by (simp add: power_add [symmetric])
  with assms(2) have e: "t = t' * 10 ^ (b - a)" by simp
  have "b - a = 0"
  proof (rule ccontr)
    assume "b - a \<noteq> 0"
    then obtain d where "b - a = Suc d" by (cases "b - a") simp_all
    with e have "10 dvd t" by simp
    with assms(1) show False by simp
  qed
  with e assms(3) show ?thesis by simp
qed

lemma decimal_unique:
  fixes t t' :: nat
  assumes "\<not> 10 dvd t" "\<not> 10 dvd t'" "t * 10 ^ a = t' * 10 ^ b"
  shows "t = t' \<and> a = b"
proof (cases "a \<le> b")
  case True
  from decimal_unique_le [OF assms(1) assms(3) True] show ?thesis .
next
  case False
  then have "b \<le> a" by simp
  from decimal_unique_le [OF assms(2) assms(3) [symmetric] this] show ?thesis by simp
qed

text \<open>Two numerals of the same value are rendered alike.\<close>

lemma number_to_string_scale:
  assumes "i * 10 ^ g = j * 10 ^ f"
  shows "number_to_string i f = number_to_string j g"
proof (cases "i = 0")
  case True
  with assms have "j = 0" by simp
  with True show ?thesis by (simp add: number_to_string_def)
next
  case False
  with assms have j: "j \<noteq> 0" by auto
  have sgn: "(i < 0) = (j < 0)"
  proof -
    have "(i * 10 ^ g < 0) = (i < 0)" by (simp add: mult_less_0_iff)
    moreover have "(j * 10 ^ f < 0) = (j < 0)" by (simp add: mult_less_0_iff)
    ultimately show ?thesis using assms by simp
  qed
  from assms have "\<bar>i * 10 ^ g\<bar> = \<bar>j * 10 ^ f\<bar>" by simp
  then have "\<bar>i\<bar> * 10 ^ g = \<bar>j\<bar> * 10 ^ f" by (simp add: abs_mult)
  then have "nat (\<bar>i\<bar> * 10 ^ g) = nat (\<bar>j\<bar> * 10 ^ f)" by simp
  then have abs: "nat \<bar>i\<bar> * 10 ^ g = nat \<bar>j\<bar> * 10 ^ f"
    by (simp add: nat_mult_distrib nat_power_eq)
  obtain s z where sz: "strip_zeros (nat \<bar>i\<bar>) 0 = (s, z)"
    by (cases "strip_zeros (nat \<bar>i\<bar>) 0")
  obtain s' z' where sz': "strip_zeros (nat \<bar>j\<bar>) 0 = (s', z')"
    by (cases "strip_zeros (nat \<bar>j\<bar>) 0")
  from False have "nat \<bar>i\<bar> \<noteq> 0" by simp
  from strip_zeros_spec [OF this sz]
  have i: "nat \<bar>i\<bar> = s * 10 ^ z" and s: "\<not> 10 dvd s" by simp_all
  from j have "nat \<bar>j\<bar> \<noteq> 0" by simp
  from strip_zeros_spec [OF this sz']
  have j': "nat \<bar>j\<bar> = s' * 10 ^ z'" and s': "\<not> 10 dvd s'" by simp_all
  from abs have "s * 10 ^ (z + g) = s' * 10 ^ (z' + f)"
    by (simp add: i j' power_add)
  from decimal_unique [OF s s' this] have "s = s'" and "z + g = z' + f" by simp_all
  then have n: "int (length (string_of_nat s)) + int z - int f =
      int (length (string_of_nat s')) + int z' - int g" by simp
  have l: "number_to_string i f = (if i < 0 then ''-'' else []) @
      format_decimal (string_of_nat s) (int (length (string_of_nat s)) + int z - int f)"
    using False sz by (simp add: number_to_string_def)
  have r: "number_to_string j g = (if i < 0 then ''-'' else []) @
      format_decimal (string_of_nat s) (int (length (string_of_nat s')) + int z' - int g)"
    using j sz' sgn \<open>s = s'\<close> by (simp add: number_to_string_def)
  show ?thesis unfolding l r n ..
qed

text \<open>
  The characters of a numeral: the digits, the point, \<open>e\<close> and the signs. Neither \<open>n\<close>
  nor the comma is among them.
\<close>

lemma digit_char_numeral: "d < 10 \<Longrightarrow> numeral_char (digit_char d)"
proof -
  assume "d < 10"
  then have "d \<in> {0, 1, 2, 3, 4, 5, 6, 7, 8, 9}" by auto
  then show ?thesis
    by (auto simp: digit_char_def numeral_char_def)
qed

lemma string_of_nat_numeral: "c \<in> set (string_of_nat n) \<Longrightarrow> numeral_char c"
proof (induction n rule: string_of_nat.induct)
  case (1 n)
  show ?case
  proof (cases "n < 10")
    case True
    with "1.prems" show ?thesis
      by (subst (asm) string_of_nat.simps) (simp add: digit_char_numeral)
  next
    case False
    with "1.prems" have "c \<in> set (string_of_nat (n div 10)) \<or> c = digit_char (n mod 10)"
      by (subst (asm) string_of_nat.simps) auto
    with "1.IH" [OF False] show ?thesis by (auto simp: digit_char_numeral)
  qed
qed

lemma string_of_int_numeral: "c \<in> set (string_of_int i) \<Longrightarrow> numeral_char c"
  by (auto simp: string_of_int_def numeral_char_def dest: string_of_nat_numeral split: if_splits)

lemma number_to_string_numeral: "c \<in> set (number_to_string i f) \<Longrightarrow> numeral_char c"
proof -
  assume c: "c \<in> set (number_to_string i f)"
  have d: "\<And>n. c \<in> set (string_of_nat n) \<Longrightarrow> numeral_char c" by (rule string_of_nat_numeral)
  have t: "\<And>n m. c \<in> set (take m (string_of_nat n)) \<Longrightarrow> numeral_char c"
    by (rule d) (erule in_set_takeD)
  have dr: "\<And>n m. c \<in> set (drop m (string_of_nat n)) \<Longrightarrow> numeral_char c"
    by (rule d) (erule in_set_dropD)
  have l: "numeral_char CHR ''0''" "numeral_char CHR ''.''" "numeral_char CHR ''e''"
    "numeral_char CHR ''+''" "numeral_char CHR ''-''"
    by (simp_all add: numeral_char_def)
  from c show ?thesis
    by (auto simp: number_to_string_def format_decimal_def Let_def l
        split: if_splits prod.splits dest: d t dr)
qed

text \<open>An integer numeral of at most 21 digits is printed as it is.\<close>

lemma string_of_nat_times_10: "s \<noteq> 0 \<Longrightarrow> string_of_nat (s * 10) = string_of_nat s @ ''0''"
proof -
  assume "s \<noteq> 0"
  then have "\<not> s * 10 < 10" by simp
  from string_of_nat_big [OF this] show ?thesis by (simp add: digit_char_def)
qed

lemma string_of_nat_shift:
  "s \<noteq> 0 \<Longrightarrow> string_of_nat (s * 10 ^ z) = string_of_nat s @ replicate z (CHR ''0'')"
proof (induction z)
  case 0
  show ?case by simp
next
  case (Suc z)
  from Suc.prems have "s * 10 ^ z \<noteq> 0" by simp
  from string_of_nat_times_10 [OF this] Suc
  have "string_of_nat (s * 10 ^ z * 10) = string_of_nat s @ replicate (Suc z) (CHR ''0'')"
    by (simp add: replicate_append_same)
  moreover have "s * 10 ^ Suc z = s * 10 ^ z * 10" by simp
  ultimately show ?case by (simp only:)
qed

lemma string_of_nat_length: "n < 10 ^ Suc k \<Longrightarrow> length (string_of_nat n) \<le> Suc k"
proof (induction k arbitrary: n)
  case 0
  then show ?case by (simp add: string_of_nat_small)
next
  case (Suc k)
  show ?case
  proof (cases "n < 10")
    case True
    then show ?thesis by (simp add: string_of_nat_small)
  next
    case False
    from Suc.prems have "n div 10 < 10 ^ Suc k" by (simp add: less_mult_imp_div_less)
    from Suc.IH [OF this] False show ?thesis by (simp add: string_of_nat_big)
  qed
qed

lemma number_to_string_integer:
  assumes "\<bar>i\<bar> < 10 ^ 21"
  shows "number_to_string i 0 = string_of_int i"
proof (cases "i = 0")
  case True
  then show ?thesis by (simp add: number_to_string_def string_of_int_0)
next
  case False
  obtain s z where sz: "strip_zeros (nat \<bar>i\<bar>) 0 = (s, z)"
    by (cases "strip_zeros (nat \<bar>i\<bar>) 0")
  from False have "nat \<bar>i\<bar> \<noteq> 0" by simp
  from strip_zeros_spec [OF this sz] have i: "nat \<bar>i\<bar> = s * 10 ^ z" and s: "s \<noteq> 0"
    by simp_all
  from string_of_nat_shift [OF s, of z] i
  have digits: "string_of_nat (nat \<bar>i\<bar>) = string_of_nat s @ replicate z (CHR ''0'')" by simp
  from assms have "nat \<bar>i\<bar> < 10 ^ Suc 20" by (simp add: nat_less_iff)
  from string_of_nat_length [OF this] digits
  have n: "int (length (string_of_nat s)) + int z \<le> 21" by simp
  have "format_decimal (string_of_nat s) (int (length (string_of_nat s)) + int z - int 0) =
      string_of_nat (nat \<bar>i\<bar>)"
    using n by (simp add: format_decimal_def Let_def digits)
  with False sz have "number_to_string i 0 =
      (if i < 0 then ''-'' else []) @ string_of_nat (nat \<bar>i\<bar>)"
    by (simp add: number_to_string_def)
  then show ?thesis by (simp add: string_of_int_def)
qed

lemma number_to_string_1: "number_to_string 1 0 = ''1''"
  by (simp add: number_to_string_def format_decimal_def strip_zeros.simps
      string_of_nat.simps digit_char_def)

lemmas render_eval =
  string_of_int_def string_of_nat.simps digit_char_def number_to_string_def
  format_decimal_def strip_zeros.simps

subsection \<open>Primitive values\<close>

lemma keySegment_v1_primitive:
  "primitive arg \<Longrightarrow> keySegment_v1 arg (st, wks) = (Inr (primitive_segment arg), st, wks)"
  by (cases arg) (simp_all add: keySegment_v1_def)

lemma num_equal_rendered:
  assumes "num_strict_equals a b \<or> a = NaN \<and> b = NaN"
  shows "JSON_stringify (Number b) = JSON_stringify (Number a)"
proof (cases "decimal a")
  case None
  with assms have "a = b" by (auto simp: num_strict_equals_def split: option.splits)
  then show ?thesis by simp
next
  case a: (Some p)
  obtain i f where p: "p = (i, f)" by (cases p)
  show ?thesis
  proof (cases "decimal b")
    case None
    with a assms have "a = b" by (auto simp: num_strict_equals_def)
    then show ?thesis by simp
  next
    case b: (Some q)
    obtain j g where q: "q = (j, g)" by (cases q)
    from assms a b p q have "i * 10 ^ g = j * 10 ^ f"
      by (auto simp: num_strict_equals_def)
    from number_to_string_scale [OF this] a b p q show ?thesis by simp
  qed
qed

lemma strict_equals_same_value_zero: "strict_equals x y \<Longrightarrow> same_value_zero x y"
  by (cases x; cases y) simp_all

lemma value_equal_primitive:
  "primitive x \<Longrightarrow> value_equal x y \<Longrightarrow> primitive y \<and> primitive_segment y = primitive_segment x"
proof (cases x)
  case (Number a)
  assume "value_equal x y"
  then have "same_value_zero x y"
    by (auto simp: value_equal_def dest: strict_equals_same_value_zero)
  with Number obtain b where y: "y = Number b"
    and ab: "num_strict_equals a b \<or> a = NaN \<and> b = NaN"
    by (cases y) auto
  from num_equal_rendered [OF ab] y Number show ?thesis by simp
qed (auto simp: value_equal_def)

lemma map_segments_primitive:
  "list_all primitive args \<Longrightarrow>
   map_segments keySegment_v1 args (st, wks) = (Inr (map primitive_segment args), st, wks)"
  by (induction args) (simp_all add: keySegment_v1_primitive)

lemma getKey_v1_primitive:
  assumes "list_all primitive (this # args)"
  shows "getKey_v1 this args st = (Inr (join '','' (map primitive_segment (this # args))), st)"
  using map_segments_primitive [OF assms, of st "[]"]
  by (simp add: getKey_v1_def serialize_def)

lemma value_equal_segments:
  "list_all2 value_equal xs ys \<Longrightarrow> list_all primitive xs \<Longrightarrow>
   list_all primitive ys \<and> map primitive_segment ys = map primitive_segment xs"
  by (induction rule: list_all2_induct) (auto dest: value_equal_primitive)

lemma join_append_Cons:
  "join sep (ps @ x # ss) =
     concat (map (\<lambda>p. p @ sep) ps) @ x @ (if ss = [] then [] else sep @ join sep ss)"
proof (induction ps)
  case Nil
  show ?case by (cases ss) simp_all
next
  case (Cons p ps)
  then show ?case by (cases ps) simp_all
qed

text \<open>
  Where a key has the segment of a bigint, its digits and then \<open>n\<close>, the key of a list
  with a number at that place has a numeral and then the comma or the end, or \<open>null\<close>.
\<close>

lemma numeral_then:
  assumes "\<forall>c\<in>set u. numeral_char c" "\<forall>c\<in>set v. numeral_char c"
    and "\<not> numeral_char x" "t = [] \<or> \<not> numeral_char (hd t)"
    and "u @ x # r = v @ t"
  shows "x # r = t"
proof -
  from assms(1,3) have "takeWhile numeral_char (u @ x # r) = u"
    by (simp add: takeWhile_tail)
  moreover from assms(2,4) have "takeWhile numeral_char (v @ t) = v"
    by (cases t) (simp_all add: takeWhile_tail)
  ultimately have "u = v" using assms(5) by simp
  with assms(5) show ?thesis by simp
qed

lemma bigint_number_segments_differ:
  assumes "t = [] \<or> hd t = CHR '',''"
  shows "string_of_int i @ CHR ''n'' # r \<noteq> primitive_segment (Number x) @ t"
proof (cases "decimal x")
  case None
  have "hd (string_of_int i @ CHR ''n'' # r) = hd (string_of_int i)"
    by (simp add: string_of_int_nonempty)
  moreover have "numeral_char (hd (string_of_int i))"
    using hd_in_set [OF string_of_int_nonempty, of i] by (rule string_of_int_numeral)
  moreover have "\<not> numeral_char CHR ''n''" by (simp add: numeral_char_def)
  ultimately show ?thesis using None by auto
next
  case (Some p)
  obtain j f where p: "p = (j, f)" by (cases p)
  show ?thesis
  proof
    assume e: "string_of_int i @ CHR ''n'' # r = primitive_segment (Number x) @ t"
    have 1: "\<forall>c\<in>set (string_of_int i). numeral_char c"
      by (simp add: string_of_int_numeral)
    have 2: "\<forall>c\<in>set (number_to_string j f). numeral_char c"
      by (simp add: number_to_string_numeral)
    have 3: "\<not> numeral_char CHR ''n''" by (simp add: numeral_char_def)
    from assms have 4: "t = [] \<or> \<not> numeral_char (hd t)" by (auto simp: numeral_char_def)
    from e Some p have "string_of_int i @ CHR ''n'' # r = number_to_string j f @ t" by simp
    from numeral_then [OF 1 2 3 4 this] assms show False by auto
  qed
qed

lemma bigint_number_keys_differ:
  assumes "map primitive_segment xs = map primitive_segment ys"
  shows "join '','' (map primitive_segment (xs @ BigInt i # c)) \<noteq>
         join '','' (map primitive_segment (ys @ Number x # d))"
proof -
  let ?P = "concat (map (\<lambda>p. p @ '','') (map primitive_segment ys))"
  let ?r = "if c = [] then [] else '','' @ join '','' (map primitive_segment c)"
  let ?t = "if d = [] then [] else '','' @ join '','' (map primitive_segment d)"
  have l: "join '','' (map primitive_segment (xs @ BigInt i # c)) =
      ?P @ string_of_int i @ CHR ''n'' # ?r"
    using assms by (simp add: join_append_Cons)
  have r: "join '','' (map primitive_segment (ys @ Number x # d)) =
      ?P @ primitive_segment (Number x) @ ?t"
    by (simp add: join_append_Cons)
  have "?t = [] \<or> hd ?t = CHR '',''" by simp
  from bigint_number_segments_differ [OF this, of i ?r x] show ?thesis
    unfolding l r by simp
qed

subsection \<open>Tokens\<close>

lemma digit_char_inj: "a < 16 \<Longrightarrow> b < 16 \<Longrightarrow> digit_char a = digit_char b \<Longrightarrow> a = b"
proof -
  have d: "distinct ''0123456789abcdef''" by simp
  assume "a < 16" "b < 16" "digit_char a = digit_char b"
  with nth_eq_iff_index_eq [OF d, of a b] show ?thesis
    by (simp add: digit_char_def)
qed

lemma string_of_nat_inj: "string_of_nat m = string_of_nat n \<Longrightarrow> m = n"
proof (induction m arbitrary: n rule: string_of_nat.induct)
  case (1 m)
  show ?case
  proof (cases "m < 10")
    case m: True
    show ?thesis
    proof (cases "n < 10")
      case True
      with m "1.prems" show ?thesis
        by (simp add: string_of_nat_small digit_char_inj)
    next
      case False
      with m "1.prems" string_of_nat_nonempty [of "n div 10"] show ?thesis
        by (simp add: string_of_nat_small string_of_nat_big)
    qed
  next
    case m: False
    show ?thesis
    proof (cases "n < 10")
      case True
      with m "1.prems" string_of_nat_nonempty [of "m div 10"] show ?thesis
        by (simp add: string_of_nat_small string_of_nat_big)
    next
      case False
      with m "1.prems" have q: "string_of_nat (m div 10) = string_of_nat (n div 10)"
        and r: "digit_char (m mod 10) = digit_char (n mod 10)"
        by (simp_all add: string_of_nat_big)
      from "1.IH" [OF m q] have "m div 10 = n div 10" .
      moreover from r have "m mod 10 = n mod 10"
        by (rule digit_char_inj [rotated 2]) simp_all
      ultimately show ?thesis
        by (metis div_mult_mod_eq)
    qed
  qed
qed

lemma ref_token_inj: "ref_token m = ref_token n \<Longrightarrow> m = n"
  by (simp add: ref_token_def string_of_nat_inj)

subsection \<open>The \<open>WeakMap\<close> of memoize.ts\<close>

lemma weak_segment_held:
  assumes "can_be_held_weakly arg"
  shows "\<exists>s st' wks'. weak_segment arg (st, wks) = (Inr s, st', wks') \<and>
           weakKeyToKeySegmentCache st' arg = Some s \<and>
           (weakKeyToKeySegmentCache st arg = Some s \<and> st' = st \<or>
            weakKeyToKeySegmentCache st arg = None \<and> s = ref_token (next_i st) \<and>
            next_i st' = Suc (next_i st) \<and>
            weakKeyToKeySegmentCache st' = (weakKeyToKeySegmentCache st)(arg \<mapsto> s) \<and>
            weakKeySegmentToKeyCache st' = weakKeySegmentToKeyCache st)"
  using assms by (cases "weakKeyToKeySegmentCache st arg") (simp_all add: weak_segment_def Let_def)

lemma weak_segment_not_held:
  assumes "\<not> can_be_held_weakly arg"
  shows "\<exists>r st' wks'. weak_segment arg (st, wks) = (r, st', wks') \<and>
           weakKeyToKeySegmentCache st' = weakKeyToKeySegmentCache st \<and>
           weakKeySegmentToKeyCache st' = weakKeySegmentToKeyCache st \<and>
           next_i st \<le> next_i st'"
  using assms by (cases "weakKeyToKeySegmentCache st arg") (simp_all add: weak_segment_def Let_def)

subsection \<open>The invariant of the \<open>WeakMap\<close>\<close>

lemma extends_refl [simp]: "extends st st"
  by (simp add: extends_def)

lemma extends_trans: "extends a b \<Longrightarrow> extends b c \<Longrightarrow> extends a c"
  by (simp add: extends_def)

lemma weak_segment_inv:
  assumes "weak_segment arg (st, wks) = (r, st', wks')" "serializer_inv st"
  shows "serializer_inv st'"
proof (cases "weakKeyToKeySegmentCache st arg")
  case (Some s)
  with assms show ?thesis by (simp add: weak_segment_def)
next
  case None
  show ?thesis
  proof (cases "can_be_held_weakly arg")
    case False
    with None assms(1) have "weakKeyToKeySegmentCache st' = weakKeyToKeySegmentCache st"
      and "next_i st' = Suc (next_i st)"
      by (auto simp: weak_segment_def Let_def)
    with assms(2) show ?thesis
      unfolding serializer_inv_def by (metis less_Suc_eq)
  next
    case True
    with None assms(1)
    have wm: "weakKeyToKeySegmentCache st' =
        (weakKeyToKeySegmentCache st)(arg \<mapsto> ref_token (next_i st))"
      and i: "next_i st' = Suc (next_i st)"
      by (auto simp: weak_segment_def Let_def)
    have fresh: "s \<noteq> ref_token (next_i st)" if "weakKeyToKeySegmentCache st x = Some s" for x s
    proof -
      from assms(2) that obtain n where "n < next_i st" "s = ref_token n"
        unfolding serializer_inv_def by blast
      then show ?thesis using ref_token_inj [of n "next_i st"] by auto
    qed
    show ?thesis
      unfolding serializer_inv_def
    proof (intro conjI allI impI)
      fix x s assume "weakKeyToKeySegmentCache st' x = Some s"
      with wm i assms(2) show "\<exists>n<next_i st'. s = ref_token n"
        unfolding serializer_inv_def
        by (cases "x = arg") (auto simp: less_Suc_eq)
    next
      fix x y s
      assume "weakKeyToKeySegmentCache st' x = Some s" "weakKeyToKeySegmentCache st' y = Some s"
      with wm assms(2) fresh show "x = y"
        unfolding serializer_inv_def
        by (cases "x = arg"; cases "y = arg") (auto simp: fun_upd_def split: if_splits)
    qed
  qed
qed

lemma weak_segment_extends:
  assumes "weak_segment arg (st, wks) = (r, st', wks')"
  shows "extends st st'"
  using assms
  by (cases "weakKeyToKeySegmentCache st arg")
     (auto simp: weak_segment_def Let_def extends_def split: if_splits)

lemma weak_segment_index:
  assumes "weak_segment arg (st, wks) = (r, st', wks')"
  shows "weakKeySegmentToKeyCache st' = weakKeySegmentToKeyCache st"
  using assms
  by (cases "weakKeyToKeySegmentCache st arg")
     (auto simp: weak_segment_def Let_def split: if_splits)

lemma keySegment_v1_cases:
  "(primitive arg \<and> keySegment_v1 arg (st, wks) = (Inr (primitive_segment arg), st, wks)) \<or>
   (\<not> primitive arg \<and> keySegment_v1 arg (st, wks) = weak_segment arg (st, wks))"
proof (cases "primitive arg")
  case True
  then show ?thesis by (simp add: keySegment_v1_primitive)
next
  case False
  then show ?thesis by (cases arg) (simp_all add: keySegment_v1_def)
qed

lemma keySegment_v1_inv:
  assumes "keySegment_v1 arg (st, wks) = (r, st', wks')" "serializer_inv st"
  shows "serializer_inv st'"
proof (cases "primitive arg")
  case True
  with assms show ?thesis by (simp add: keySegment_v1_primitive)
next
  case False
  with keySegment_v1_cases [of arg st wks] assms(1)
  have "weak_segment arg (st, wks) = (r, st', wks')" by simp
  then show ?thesis using assms(2) by (rule weak_segment_inv)
qed

lemma keySegment_v1_extends:
  assumes "keySegment_v1 arg (st, wks) = (r, st', wks')"
  shows "extends st st'"
proof (cases "primitive arg")
  case True
  with assms show ?thesis by (simp add: keySegment_v1_primitive)
next
  case False
  with keySegment_v1_cases [of arg st wks] assms
  have "weak_segment arg (st, wks) = (r, st', wks')" by simp
  then show ?thesis by (rule weak_segment_extends)
qed

lemma keySegment_v1_index:
  assumes "keySegment_v1 arg (st, wks) = (r, st', wks')"
  shows "weakKeySegmentToKeyCache st' = weakKeySegmentToKeyCache st"
proof (cases "primitive arg")
  case True
  with assms show ?thesis by (simp add: keySegment_v1_primitive)
next
  case False
  with keySegment_v1_cases [of arg st wks] assms
  have "weak_segment arg (st, wks) = (r, st', wks')" by simp
  then show ?thesis by (rule weak_segment_index)
qed

lemma map_segments_v1_inv:
  "map_segments keySegment_v1 args (st, wks) = (r, st', wks') \<Longrightarrow> serializer_inv st \<Longrightarrow>
   serializer_inv st'"
proof (induction args arbitrary: st wks r st' wks')
  case Nil
  then show ?case by simp
next
  case (Cons a args)
  obtain r1 st1 wks1 where k: "keySegment_v1 a (st, wks) = (r1, st1, wks1)"
    by (metis prod_cases3)
  from k Cons.prems(2) have inv1: "serializer_inv st1" by (rule keySegment_v1_inv)
  show ?case
  proof (cases r1)
    case (Inl e)
    with k Cons.prems(1) inv1 show ?thesis by simp
  next
    case (Inr seg)
    obtain r2 st2 wks2 where m: "map_segments keySegment_v1 args (st1, wks1) = (r2, st2, wks2)"
      by (metis prod_cases3)
    from Cons.IH [OF m inv1] have "serializer_inv st2" .
    with Inr k m Cons.prems(1) show ?thesis by (auto split: sum.splits)
  qed
qed

lemma map_segments_v1_extends:
  "map_segments keySegment_v1 args (st, wks) = (r, st', wks') \<Longrightarrow> extends st st'"
proof (induction args arbitrary: st wks r st' wks')
  case Nil
  then show ?case by simp
next
  case (Cons a args)
  obtain r1 st1 wks1 where k: "keySegment_v1 a (st, wks) = (r1, st1, wks1)"
    by (metis prod_cases3)
  then have e1: "extends st st1" by (rule keySegment_v1_extends)
  show ?case
  proof (cases r1)
    case (Inl e)
    with k Cons.prems(1) e1 show ?thesis by simp
  next
    case (Inr seg)
    obtain r2 st2 wks2 where m: "map_segments keySegment_v1 args (st1, wks1) = (r2, st2, wks2)"
      by (metis prod_cases3)
    from Cons.IH [OF m] e1 have "extends st st2" by (blast intro: extends_trans)
    with Inr k m Cons.prems(1) show ?thesis by (auto split: sum.splits)
  qed
qed

lemma serialize_v1_facts:
  assumes "getKey_v1 this args st = (r, st')"
  shows "extends st st'" and "serializer_inv st \<Longrightarrow> serializer_inv st'"
proof -
  obtain r1 st1 wks1 where m: "map_segments keySegment_v1 (this # args) (st, []) = (r1, st1, wks1)"
    by (metis prod_cases3)
  from m assms have wm: "weakKeyToKeySegmentCache st' = weakKeyToKeySegmentCache st1"
    and i: "next_i st' = next_i st1"
    by (auto simp: getKey_v1_def serialize_def Let_def split: sum.splits)
  from map_segments_v1_extends [OF m] wm show "extends st st'"
    by (simp add: extends_def)
  assume "serializer_inv st"
  with map_segments_v1_inv [OF m] wm i show "serializer_inv st'"
    by (simp add: serializer_inv_def)
qed

lemma held_not_primitive: "can_be_held_weakly x \<Longrightarrow> \<not> primitive x"
  by (cases x) simp_all

lemma getKey_v1_reference:
  assumes "can_be_held_weakly x"
  shows "\<exists>s st'. getKey_v1 Undefined [x] st = (Inr (''undefined,'' @ s), st') \<and>
           weakKeyToKeySegmentCache st' x = Some s \<and>
           (\<forall>s'. weakKeyToKeySegmentCache st x = Some s' \<longrightarrow> s' = s)"
proof -
  from weak_segment_held [OF assms, of st "[]"]
  obtain s st1 wks1 where w: "weak_segment x (st, []) = (Inr s, st1, wks1)"
    and s: "weakKeyToKeySegmentCache st1 x = Some s"
    and old: "weakKeyToKeySegmentCache st x = Some s \<or> weakKeyToKeySegmentCache st x = None"
    by blast
  from assms have "keySegment_v1 x (st, []) = weak_segment x (st, [])"
    using keySegment_v1_cases [of x st "[]"] by (simp add: held_not_primitive)
  with w have m: "map_segments keySegment_v1 [Undefined, x] (st, []) = (Inr [''undefined'', s], st1, wks1)"
    by (simp add: keySegment_v1_primitive)
  have "getKey_v1 Undefined [x] st =
      (Inr (''undefined,'' @ s),
       st1\<lparr>weakKeySegmentToKeyCache :=
             index_key (''undefined,'' @ s) wks1 (weakKeySegmentToKeyCache st1)\<rparr>)"
    unfolding getKey_v1_def serialize_def m by (simp add: Let_def)
  with s old show ?thesis by auto
qed

lemma collect_inv: "serializer_inv st \<Longrightarrow> serializer_inv (collect x st)"
  unfolding serializer_inv_def collect_def by (simp split: if_splits)

lemma sstep_inv: "serializer_inv (fst s) \<Longrightarrow> serializer_inv (fst (sstep co s ev))"
proof (cases s)
  case (Pair st c)
  assume inv: "serializer_inv (fst s)"
  show ?thesis
  proof (cases ev)
    case (GetKey this args)
    with Pair inv serialize_v1_facts(2) [of this args st] show ?thesis
      by (cases "getKey_v1 this args st") simp
  next
    case (Collect x)
    with Pair inv show ?thesis by (simp add: collect_inv)
  next
    case (Cleanup seg)
    with Pair inv show ?thesis by (simp add: registry_callback_def serializer_inv_def)
  qed
qed

lemma srun_inv: "serializer_inv (fst s) \<Longrightarrow> serializer_inv (fst (srun co s evs))"
  unfolding srun_def by (induction evs arbitrary: s) (simp_all add: sstep_inv)

lemma sstep_alive:
  assumes "ev \<noteq> Collect x" "weakKeyToKeySegmentCache (fst s) x = Some t"
  shows "weakKeyToKeySegmentCache (fst (sstep co s ev)) x = Some t"
proof (cases s)
  case (Pair st c)
  show ?thesis
  proof (cases ev)
    case (GetKey this args)
    with Pair assms(2) serialize_v1_facts(1) [of this args st] show ?thesis
      by (cases "getKey_v1 this args st") (simp add: extends_def)
  next
    case (Collect y)
    with Pair assms show ?thesis by (simp add: collect_def)
  next
    case (Cleanup seg)
    with Pair assms show ?thesis by (simp add: registry_callback_def)
  qed
qed

lemma srun_alive:
  "Collect x \<notin> set evs \<Longrightarrow> weakKeyToKeySegmentCache (fst s) x = Some t \<Longrightarrow>
   weakKeyToKeySegmentCache (fst (srun co s evs)) x = Some t"
  unfolding srun_def
proof (induction evs arbitrary: s)
  case Nil
  then show ?case by simp
next
  case (Cons ev evs)
  from Cons.prems have "weakKeyToKeySegmentCache (fst (sstep co s ev)) x = Some t"
    by (intro sstep_alive) auto
  with Cons.IH [of "sstep co s ev"] Cons.prems(1) show ?case by simp
qed

lemma new_serializer_inv: "serializer_inv new_serializer"
  by (simp add: serializer_inv_def new_serializer_def)

lemma Map_get_overwrite:
  "Map_get k' (Map_overwrite k v m) =
     (if k' = k \<and> Map_has k m then Some v else Map_get k' m)"
  by (induction m) (auto simp: Map_get_def Map_has_def)

lemma Map_get_set:
  "Map_get k' (Map_set k v m) = (if k' = k then Some v else Map_get k' m)"
proof (cases "Map_has k m")
  case True
  then show ?thesis by (simp add: Map_set_def Map_get_overwrite)
next
  case False
  then have "map_of m k = None" by (simp add: Map_has_def)
  with False show ?thesis
    by (auto simp: Map_set_def Map_get_def map_add_def split: option.splits)
qed

subsection \<open>No value makes the serializers of mod.ts and of memoize.ts (second revision) throw\<close>

lemma map_segments_total:
  assumes "\<And>a s. \<exists>seg s'. f a s = (Inr seg, s')"
  shows "\<exists>segs s'. map_segments f as s = (Inr segs, s')"
proof (induction as arbitrary: s)
  case Nil
  show ?case by simp
next
  case (Cons a as)
  from assms obtain seg s1 where "f a s = (Inr seg, s1)" by blast
  moreover from Cons.IH obtain segs s2 where "map_segments f as s1 = (Inr segs, s2)" by blast
  ultimately show ?case by simp
qed

lemma JSON_stringify_primitive:
  "typeof arg = ''string'' \<or> typeof arg = ''number'' \<or> typeof arg = ''boolean'' \<or> arg = Null \<Longrightarrow>
   \<exists>s. JSON_stringify arg = Some s"
proof (cases arg)
  case (Number n)
  then show ?thesis by (cases n) simp_all
qed simp_all

lemma catch_strong_total: "\<exists>seg st'. catch_strong arg st = (Inr seg, st')"
  by (cases "Map_get arg (strongKeySegmentCache st)")
     (simp_all add: catch_strong_def nextReferenceKeySegment_def)

lemma try_weak_throws: "try_weak arg st = (Inl e, st') \<Longrightarrow> st' = st \<and> \<not> can_be_held_weakly arg"
  by (auto simp: try_weak_def assertWeakKey_def nextReferenceKeySegment_def
      split: if_splits option.splits)

lemma keySegment_mod_total: "\<exists>seg st'. keySegment_mod arg st = (Inr seg, st')"
proof (cases "typeof arg = ''string'' \<or> typeof arg = ''number'' \<or> typeof arg = ''boolean'' \<or> arg = Null")
  case True
  from JSON_stringify_primitive [OF this] obtain s where "JSON_stringify arg = Some s" ..
  with True show ?thesis by (simp add: keySegment_mod_def)
next
  case False
  obtain r st1 where t: "try_weak arg st = (r, st1)" by (cases "try_weak arg st")
  show ?thesis
  proof (cases r)
    case (Inr seg)
    with False t show ?thesis by (cases arg) (simp_all add: keySegment_mod_def)
  next
    case (Inl e)
    from catch_strong_total [of arg st1] obtain seg st' where "catch_strong arg st1 = (Inr seg, st')"
      by blast
    with False t Inl show ?thesis by (cases arg) (simp_all add: keySegment_mod_def)
  qed
qed

lemma getKey_mod_total: "\<exists>key st'. getKey_mod this args st = (Inr key, st')"
proof -
  from map_segments_total [of keySegment_mod "this # args" st, OF keySegment_mod_total]
  obtain segs st1 where "map_segments keySegment_mod (this # args) st = (Inr segs, st1)"
    by blast
  then show ?thesis by (simp add: getKey_mod_def Let_def)
qed

lemma keySegment_v2_total: "\<exists>seg s'. keySegment_v2 arg s = (Inr seg, s')"
proof (cases s)
  case (Pair st wks)
  show ?thesis
  proof (cases "can_be_held_weakly arg")
    case True
    from weak_segment_held [OF True, of st wks]
    obtain seg st' wks' where "weak_segment arg (st, wks) = (Inr seg, st', wks')" by blast
    with True Pair show ?thesis
      by (cases arg) (simp_all add: keySegment_v2_def assertWeakKey_def)
  next
    case False
    show ?thesis
    proof (cases arg)
      case (Number n)
      with Pair show ?thesis by (cases n) (simp_all add: keySegment_v2_def)
    next
      case (Symbol sy)
      with False Pair show ?thesis
        by (cases sy) (simp_all add: keySegment_v2_def assertWeakKey_def)
    qed (use False Pair in \<open>simp_all add: keySegment_v2_def\<close>)
  qed
qed

lemma getKey_v2_total: "\<exists>key st'. getKey_v2 this args st = (Inr key, st')"
proof -
  from map_segments_total [of keySegment_v2 "this # args" "(st, [])", OF keySegment_v2_total]
  obtain segs s1 where "map_segments keySegment_v2 (this # args) (st, []) = (Inr segs, s1)"
    by blast
  then show ?thesis by (cases s1) (simp add: getKey_v2_def serialize_def Let_def)
qed

lemma getKey_mod_registered:
  "\<exists>seg st'. getKey_mod Undefined [Symbol (Registered d)] st = (Inr (''undefined,'' @ seg), st') \<and>
      Map_get (Symbol (Registered d)) (strongKeySegmentCache st') = Some seg \<and>
      weakKeySegmentCache st' = weakKeySegmentCache st \<and>
      finalizationRegistry st' = finalizationRegistry st"
proof (cases "Map_get (Symbol (Registered d)) (strongKeySegmentCache st)")
  case None
  then have "\<not> Map_has (Symbol (Registered d)) (strongKeySegmentCache st)"
    by (simp add: Map_has_def Map_get_def)
  with None show ?thesis
    by (simp add: getKey_mod_def keySegment_mod_def try_weak_def assertWeakKey_def
        catch_strong_def nextReferenceKeySegment_def Let_def Map_get_set)
next
  case (Some seg)
  then show ?thesis
    by (simp add: getKey_mod_def keySegment_mod_def try_weak_def assertWeakKey_def
        catch_strong_def Let_def)
qed

lemma getKey_v2_registered:
  "getKey_v2 Undefined [Symbol (Registered d)] st =
     (Inr (''undefined,Symbol.for('' @ json_quote d @ '')''), st)"
  by (simp add: getKey_v2_def serialize_def keySegment_v2_def assertWeakKey_def Let_def)

lemma getKey_v1_registered:
  "getKey_v1 Undefined [Symbol (Registered d)] new_serializer =
     (Inl TypeError, new_serializer\<lparr>next_i := 1\<rparr>)"
  by (simp add: getKey_v1_def serialize_def keySegment_v1_def weak_segment_def new_serializer_def
      Let_def)

subsection \<open>The index from segments to keys, and the cleanup\<close>

lemma index_key_keeps:
  "Map_get seg idx = Some keys \<Longrightarrow> k \<in> set keys \<Longrightarrow>
   \<exists>keys'. Map_get seg (index_key key wks idx) = Some keys' \<and> k \<in> set keys'"
proof (induction wks arbitrary: idx keys)
  case Nil
  then show ?case by simp
next
  case (Cons w wks)
  let ?idx = "Map_set w ((case Map_get w idx of None \<Rightarrow> [] | Some ks \<Rightarrow> ks) @ [key]) idx"
  from Cons.prems have "\<exists>keys1. Map_get seg ?idx = Some keys1 \<and> k \<in> set keys1"
    by (cases "w = seg") (simp_all add: Map_get_set)
  then obtain keys1 where "Map_get seg ?idx = Some keys1" "k \<in> set keys1" by blast
  from Cons.IH [OF this] show ?case by simp
qed

lemma index_key_adds:
  "seg \<in> set wks \<Longrightarrow>
   \<exists>keys. Map_get seg (index_key key wks idx) = Some keys \<and> key \<in> set keys"
proof (induction wks arbitrary: idx)
  case Nil
  then show ?case by simp
next
  case (Cons w wks)
  let ?idx = "Map_set w ((case Map_get w idx of None \<Rightarrow> [] | Some ks \<Rightarrow> ks) @ [key]) idx"
  show ?case
  proof (cases "w = seg")
    case True
    then have "Map_get seg ?idx = Some ((case Map_get w idx of None \<Rightarrow> [] | Some ks \<Rightarrow> ks) @ [key])"
      by (simp add: Map_get_set)
    from index_key_keeps [OF this, of key key wks] show ?thesis by simp
  next
    case False
    with Cons.prems have "seg \<in> set wks" by simp
    from Cons.IH [OF this, of ?idx] show ?thesis by simp
  qed
qed

lemma weak_segment_pushes:
  assumes "weak_segment arg (st, wks) = (r, st', wks')"
  shows "set wks \<subseteq> set wks'"
  using assms
  by (cases "weakKeyToKeySegmentCache st arg")
     (auto simp: weak_segment_def Let_def split: if_splits)

lemma keySegment_v1_pushes:
  assumes "keySegment_v1 arg (st, wks) = (r, st', wks')"
  shows "set wks \<subseteq> set wks'"
proof (cases "primitive arg")
  case True
  with assms show ?thesis by (simp add: keySegment_v1_primitive)
next
  case False
  with keySegment_v1_cases [of arg st wks] assms
  have "weak_segment arg (st, wks) = (r, st', wks')" by simp
  then show ?thesis by (rule weak_segment_pushes)
qed

lemma map_segments_rel:
  assumes step: "\<And>a s r s'. f a s = (r, s') \<Longrightarrow> R s s'"
    and refl: "\<And>s. R s s"
    and trans: "\<And>a b c. R a b \<Longrightarrow> R b c \<Longrightarrow> R a c"
  shows "map_segments f as s = (r, s') \<Longrightarrow> R s s'"
proof (induction as arbitrary: s r s')
  case Nil
  then show ?case by (simp add: refl)
next
  case (Cons a as)
  obtain r1 s1 where k: "f a s = (r1, s1)" by (cases "f a s")
  then have 1: "R s s1" by (rule step)
  show ?case
  proof (cases r1)
    case (Inl e)
    with k Cons.prems 1 show ?thesis by simp
  next
    case (Inr seg)
    obtain r2 s2 where m: "map_segments f as s1 = (r2, s2)" by (cases "map_segments f as s1")
    from Cons.IH [OF m] 1 have "R s s2" by (rule trans [rotated])
    with Inr k m Cons.prems show ?thesis by (auto split: sum.splits)
  qed
qed

lemma map_segments_v1_pushes:
  assumes "map_segments keySegment_v1 args (st, wks) = (r, st', wks')"
  shows "set wks \<subseteq> set wks'"
  using map_segments_rel
    [of keySegment_v1 "\<lambda>s s'. set (snd s) \<subseteq> set (snd s')", OF _ _ _ assms]
    keySegment_v1_pushes
  by fastforce

lemma map_segments_v1_index:
  assumes "map_segments keySegment_v1 args (st, wks) = (r, st', wks')"
  shows "weakKeySegmentToKeyCache st' = weakKeySegmentToKeyCache st"
  using map_segments_rel
    [of keySegment_v1
        "\<lambda>s s'. weakKeySegmentToKeyCache (fst s') = weakKeySegmentToKeyCache (fst s)",
     OF _ _ _ assms]
    keySegment_v1_index
  by fastforce

lemma keySegment_v1_reference:
  assumes "keySegment_v1 x (st, wks) = (Inr s, st', wks')" "can_be_held_weakly x"
  shows "weakKeyToKeySegmentCache st' x = Some s \<and> s \<in> set wks'"
proof -
  from assms(2) keySegment_v1_cases [of x st wks] assms(1)
  have "weak_segment x (st, wks) = (Inr s, st', wks')"
    by (simp add: held_not_primitive)
  then show ?thesis
    by (cases "weakKeyToKeySegmentCache st x")
       (auto simp: weak_segment_def Let_def split: if_splits)
qed

lemma map_segments_v1_reference:
  "map_segments keySegment_v1 args (st, wks) = (Inr segs, st', wks') \<Longrightarrow>
   x \<in> set args \<Longrightarrow> can_be_held_weakly x \<Longrightarrow>
   \<exists>s. weakKeyToKeySegmentCache st' x = Some s \<and> s \<in> set wks'"
proof (induction args arbitrary: st wks segs st' wks')
  case Nil
  then show ?case by simp
next
  case (Cons a args)
  obtain r1 st1 wks1 where k: "keySegment_v1 a (st, wks) = (r1, st1, wks1)"
    by (metis prod_cases3)
  obtain r2 st2 wks2 where m: "map_segments keySegment_v1 args (st1, wks1) = (r2, st2, wks2)"
    by (metis prod_cases3)
  from k m Cons.prems(1) obtain s1 segs2 where r1: "r1 = Inr s1" and r2: "r2 = Inr segs2"
    and eq: "st2 = st'" "wks2 = wks'"
    by (auto split: sum.splits)
  show ?case
  proof (cases "x \<in> set args")
    case True
    from Cons.IH [OF m [unfolded r2] True Cons.prems(3)] eq show ?thesis by simp
  next
    case False
    with Cons.prems(2) have "a = x" by simp
    with k r1 Cons.prems(3) have "weakKeyToKeySegmentCache st1 x = Some s1" "s1 \<in> set wks1"
      using keySegment_v1_reference [of x st wks s1 st1 wks1] by simp_all
    with map_segments_v1_extends [OF m] map_segments_v1_pushes [OF m] eq show ?thesis
      by (auto simp: extends_def)
  qed
qed

text \<open>
  memoize.ts: a key that \<open>getKey\<close> returns is listed in the index under the segment of
  every reference value among the receiver and the arguments.
\<close>

lemma getKey_v1_indexed:
  assumes "getKey_v1 this args st = (Inr key, st')" "x \<in> set (this # args)" "can_be_held_weakly x"
  shows "\<exists>seg keys. weakKeyToKeySegmentCache st' x = Some seg \<and>
           Map_get seg (weakKeySegmentToKeyCache st') = Some keys \<and> key \<in> set keys"
proof -
  obtain r1 st1 wks1 where m: "map_segments keySegment_v1 (this # args) (st, []) = (r1, st1, wks1)"
    by (metis prod_cases3)
  with assms(1) obtain segs where r1: "r1 = Inr segs"
    and st': "st' = st1\<lparr>weakKeySegmentToKeyCache :=
                 index_key key wks1 (weakKeySegmentToKeyCache st1)\<rparr>"
    by (auto simp: getKey_v1_def serialize_def Let_def split: sum.splits)
  from map_segments_v1_reference [OF m [unfolded r1] assms(2,3)]
  obtain seg where "weakKeyToKeySegmentCache st1 x = Some seg" "seg \<in> set wks1" by blast
  with st' index_key_adds [of seg wks1 key "weakKeySegmentToKeyCache st1"] show ?thesis
    by auto
qed

text \<open>memoize.ts: later calls of \<open>getKey\<close> keep what the index lists.\<close>

lemma getKey_v1_index_keeps:
  assumes "getKey_v1 this args st = (r, st')"
    "Map_get seg (weakKeySegmentToKeyCache st) = Some keys" "k \<in> set keys"
  shows "\<exists>keys'. Map_get seg (weakKeySegmentToKeyCache st') = Some keys' \<and> k \<in> set keys'"
proof -
  obtain r1 st1 wks1 where m: "map_segments keySegment_v1 (this # args) (st, []) = (r1, st1, wks1)"
    by (metis prod_cases3)
  from m have idx: "weakKeySegmentToKeyCache st1 = weakKeySegmentToKeyCache st"
    by (rule map_segments_v1_index)
  show ?thesis
  proof (cases r1)
    case (Inl e)
    with m assms idx show ?thesis
      by (auto simp: getKey_v1_def serialize_def)
  next
    case (Inr segs)
    with m assms(1) obtain key where
      "st' = st1\<lparr>weakKeySegmentToKeyCache :=
                 index_key key wks1 (weakKeySegmentToKeyCache st1)\<rparr>"
      by (auto simp: getKey_v1_def serialize_def Let_def)
    with idx index_key_keeps [OF assms(2,3), of key wks1] show ?thesis by simp
  qed
qed

lemma Map_get_delete_other: "k' \<noteq> k \<Longrightarrow> Map_get k' (Map_delete k m) = Map_get k' m"
  by (induction m) (simp_all add: Map_get_def Map_delete_def)

lemma Map_get_delete:
  "Map_get k' (Map_delete k m) = (if k' = k then None else Map_get k' m)"
proof (cases "k' = k")
  case True
  have "Map_get k (Map_delete k m) = None"
    by (induction m) (simp_all add: Map_get_def Map_delete_def)
  with True show ?thesis by simp
next
  case False
  then show ?thesis by (simp add: Map_get_delete_other)
qed

lemma Map_has_delete_iff: "Map_has k' (Map_delete k m) \<longleftrightarrow> k' \<noteq> k \<and> Map_has k' m"
  by (auto simp: Map_has_iff Map_keys_delete)

lemma Map_has_foldl_delete:
  "Map_has k (foldl (\<lambda>c key. Map_delete key c) c keys) \<longleftrightarrow> Map_has k c \<and> k \<notin> set keys"
proof (induction keys arbitrary: c)
  case Nil
  show ?case by simp
next
  case (Cons a keys)
  show ?case by (simp add: Cons.IH Map_has_delete_iff) blast
qed

lemma Map_get_foldl_delete:
  "k \<notin> set keys \<Longrightarrow> Map_get k (foldl (\<lambda>c key. Map_delete key c) c keys) = Map_get k c"
proof (induction keys arbitrary: c)
  case Nil
  show ?case by simp
next
  case (Cons a keys)
  then show ?case by (simp add: Map_get_delete)
qed


text \<open>
  The callback of memoize.ts on a \<open>Map\<close>: every key the index lists under the segment is
  gone from the cache, the other entries of the cache are as before, and the index has
  no entry for the segment.
\<close>

lemma registry_callback_Map:
  assumes "registry_callback Map_cache seg (st, c) = (st', c')"
  shows "\<not> Map_has seg (weakKeySegmentToKeyCache st')"
    and "Map_get seg (weakKeySegmentToKeyCache st) = Some keys \<Longrightarrow> k \<in> set keys \<Longrightarrow> \<not> Map_has k c'"
    and "Map_get seg (weakKeySegmentToKeyCache st) = Some keys \<Longrightarrow> k \<notin> set keys \<Longrightarrow>
         Map_get k c' = Map_get k c"
  using assms
  by (auto simp: registry_callback_def Map_cache_def Map_has_foldl_delete Map_get_foldl_delete)

lemma sstep_index_keeps:
  assumes "ev \<noteq> Cleanup seg"
    "Map_get seg (weakKeySegmentToKeyCache (fst s)) = Some keys" "k \<in> set keys"
  shows "\<exists>keys'. Map_get seg (weakKeySegmentToKeyCache (fst (sstep co s ev))) = Some keys' \<and>
           k \<in> set keys'"
proof (cases s)
  case (Pair st c)
  show ?thesis
  proof (cases ev)
    case (GetKey this args)
    obtain r st' where "getKey_v1 this args st = (r, st')" by (cases "getKey_v1 this args st")
    with getKey_v1_index_keeps [OF this, of seg keys k] GetKey Pair assms show ?thesis by simp
  next
    case (Collect y)
    with Pair assms show ?thesis by (simp add: collect_def)
  next
    case (Cleanup seg')
    with Pair assms show ?thesis by (simp add: registry_callback_def Map_get_delete)
  qed
qed

lemma srun_index_keeps:
  "Cleanup seg \<notin> set evs \<Longrightarrow>
   Map_get seg (weakKeySegmentToKeyCache (fst s)) = Some keys \<Longrightarrow> k \<in> set keys \<Longrightarrow>
   \<exists>keys'. Map_get seg (weakKeySegmentToKeyCache (fst (srun co s evs))) = Some keys' \<and>
      k \<in> set keys'"
  unfolding srun_def
proof (induction evs arbitrary: s keys)
  case Nil
  then show ?case by simp
next
  case (Cons ev evs)
  from Cons.prems have "ev \<noteq> Cleanup seg" by auto
  from sstep_index_keeps [OF this Cons.prems(2,3), of co]
  obtain keys1 where "Map_get seg (weakKeySegmentToKeyCache (fst (sstep co s ev))) = Some keys1"
    "k \<in> set keys1" by blast
  with Cons.IH [of "sstep co s ev" keys1] Cons.prems(1) show ?case by simp
qed

text \<open>
  memoize.ts, from a call to the cleanup: \<open>getKey\<close> returns a key for arguments that
  include the reference value \<open>x\<close>; more happens, but no cleanup for the segment of \<open>x\<close>;
  then the callback runs for that segment, on any \<open>Map\<close> cache. The key is not in the
  cache afterwards and the index has no entry for the segment.
\<close>

lemma cleanup_purges_v1:
  assumes call: "getKey_v1 this args st = (Inr key, st1)"
    and x: "x \<in> set (this # args)" "can_be_held_weakly x"
    and seg: "weakKeyToKeySegmentCache st1 x = Some seg"
    and later: "Cleanup seg \<notin> set evs"
    and run: "srun co (st1, c1) evs = (st2, c2)"
    and cleanup: "registry_callback Map_cache seg (st2, c) = (st3, c')"
  shows "\<not> Map_has key c' \<and> \<not> Map_has seg (weakKeySegmentToKeyCache st3)"
proof -
  from getKey_v1_indexed [OF call x] seg
  obtain keys where "Map_get seg (weakKeySegmentToKeyCache st1) = Some keys" "key \<in> set keys"
    by auto
  from srun_index_keeps [OF later, of "(st1, c1)" keys key co] this run
  obtain keys' where "Map_get seg (weakKeySegmentToKeyCache st2) = Some keys'" "key \<in> set keys'"
    by auto
  with registry_callback_Map [OF cleanup] show ?thesis by blast
qed

text \<open>mod.ts: the callback leaves the serializer as it is.\<close>

lemma finalizationRegistry_callback_state:
  "fst (finalizationRegistry_callback co seg (st, c)) = st"
  by (simp add: finalizationRegistry_callback_def)

section \<open>The claims about the default serializer\<close>

text \<open>
  C8. When the receiver and the arguments are primitive values (\<open>undefined\<close>, \<open>null\<close>,
  booleans, numbers, strings, bigints) and a second receiver and argument list are
  equal to them element by element, as values (\<open>===\<close>, or \<open>SameValueZero\<close>, under which
  \<open>NaN\<close> equals itself), \<open>getKey\<close> returns the same key for both, whatever the
  serializer's state, and leaves the state alone. A bigint is rendered as its decimal
  digits followed by \<open>n\<close>; a number that is a safe integer (at most \<open>2\<^sup>5\<^sup>3\<close> in absolute
  value, where the numeral of a number is its value) is rendered as the digits alone; and
  two argument lists that agree up to a position where one has a bigint and the other a
  number, any number, get different keys.
\<close>

theorem getKey_primitives:
  "list_all primitive (this # a) \<Longrightarrow> list_all2 value_equal (this # a) (this' # b) \<Longrightarrow>
   (\<exists>key. getKey_v1 this a st = (Inr key, st) \<and> getKey_v1 this' b st' = (Inr key, st')) \<and>
   fst (getKey_v1 Undefined [BigInt i] st) = Inr (''undefined,'' @ string_of_int i @ ''n'') \<and>
   (\<bar>i\<bar> \<le> 2 ^ 53 \<longrightarrow>
      fst (getKey_v1 Undefined [Number (Finite i)] st) = Inr (''undefined,'' @ string_of_int i)) \<and>
   (\<forall>x c d. list_all primitive c \<longrightarrow> list_all primitive d \<longrightarrow>
      fst (getKey_v1 this (a @ BigInt i # c) st) \<noteq>
      fst (getKey_v1 this' (b @ Number x # d) st'))"
proof -
  assume pa: "list_all primitive (this # a)"
    and eq: "list_all2 value_equal (this # a) (this' # b)"
  from value_equal_segments [OF eq pa]
  have pb: "list_all primitive (this' # b)"
    and segs: "map primitive_segment (this' # b) = map primitive_segment (this # a)"
    by simp_all
  have same: "\<exists>key. getKey_v1 this a st = (Inr key, st) \<and> getKey_v1 this' b st' = (Inr key, st')"
    using segs by (simp only: getKey_v1_primitive [OF pa] getKey_v1_primitive [OF pb]) simp
  have big: "fst (getKey_v1 Undefined [BigInt i] st) = Inr (''undefined,'' @ string_of_int i @ ''n'')"
    by (simp add: getKey_v1_primitive)
  have num: "fst (getKey_v1 Undefined [Number (Finite i)] st) = Inr (''undefined,'' @ string_of_int i)"
    if "\<bar>i\<bar> \<le> 2 ^ 53"
  proof -
    from that have "\<bar>i\<bar> < 10 ^ 21" by simp
    from number_to_string_integer [OF this] show ?thesis by (simp add: getKey_v1_primitive)
  qed
  have diff: "fst (getKey_v1 this (a @ BigInt i # c) st) \<noteq>
      fst (getKey_v1 this' (b @ Number x # d) st')"
    if c: "list_all primitive c" and d: "list_all primitive d" for x c d
  proof -
    from pa c have 1: "list_all primitive (this # a @ BigInt i # c)" by simp
    from pb d have 2: "list_all primitive (this' # b @ Number x # d)" by simp
    from segs have "map primitive_segment (this # a) = map primitive_segment (this' # b)"
      by simp
    from bigint_number_keys_differ [OF this, of i c x d] show ?thesis
      by (simp only: getKey_v1_primitive [OF 1] getKey_v1_primitive [OF 2]) simp
  qed
  from same big num diff show ?thesis by blast
qed

text \<open>
  Negative zero and zero are equal, and so are \<open>NaN\<close> and \<open>NaN\<close>, \<open>1.5\<close> and \<open>1.50\<close>; each
  pair is rendered alike. \<open>7n\<close> and \<open>7\<close> are not.
\<close>

theorem getKey_primitives_witness:
  "list_all primitive [Undefined, Number NegZero, Number NaN, Number (Decimal 15 1)] \<and>
   list_all2 value_equal [Undefined, Number NegZero, Number NaN, Number (Decimal 15 1)]
      [Undefined, Number (Finite 0), Number NaN, Number (Decimal 150 2)] \<and>
   \<bar>7::int\<bar> \<le> 2 ^ 53 \<and>
   getKey_v1 Undefined [Number NegZero, Number NaN, Number (Decimal 15 1)] new_serializer =
     (Inr ''undefined,0,null,1.5'', new_serializer) \<and>
   getKey_v1 Undefined [Number (Finite 0), Number NaN, Number (Decimal 150 2)] new_serializer =
     (Inr ''undefined,0,null,1.5'', new_serializer) \<and>
   fst (getKey_v1 Undefined [BigInt 7] new_serializer) = Inr ''undefined,7n'' \<and>
   fst (getKey_v1 Undefined [Number (Finite 7)] new_serializer) = Inr ''undefined,7'' \<and>
   fst (getKey_v1 Undefined
     [Number NegZero, Number NaN, Number (Decimal 15 1), BigInt 7, Null] new_serializer) \<noteq>
   fst (getKey_v1 Undefined
     [Number (Finite 0), Number NaN, Number (Decimal 150 2), Number (Finite 7)] new_serializer)"
proof -
  let ?a = "[Number NegZero, Number NaN, Number (Decimal 15 1)]"
  let ?b = "[Number (Finite 0), Number NaN, Number (Decimal 150 2)]"
  have p: "list_all primitive (Undefined # ?a)" by simp
  have e: "list_all2 value_equal (Undefined # ?a) (Undefined # ?b)"
    by (simp add: value_equal_def num_strict_equals_def)
  have s: "\<bar>7::int\<bar> \<le> 2 ^ 53" by simp
  have k: "getKey_v1 Undefined ?a new_serializer = (Inr ''undefined,0,null,1.5'', new_serializer)"
    by (simp add: getKey_v1_primitive render_eval)
  have d: "string_of_int 7 = ''7''" by (simp add: render_eval)
  from getKey_primitives [of Undefined ?a Undefined ?b new_serializer new_serializer 7, OF p e]
  have "\<exists>key. getKey_v1 Undefined ?a new_serializer = (Inr key, new_serializer) \<and>
          getKey_v1 Undefined ?b new_serializer = (Inr key, new_serializer)"
    and "fst (getKey_v1 Undefined [BigInt 7] new_serializer) = Inr (''undefined,'' @ string_of_int 7 @ ''n'')"
    and "fst (getKey_v1 Undefined [Number (Finite 7)] new_serializer) = Inr (''undefined,'' @ string_of_int 7)"
    and "fst (getKey_v1 Undefined (?a @ BigInt 7 # [Null]) new_serializer) \<noteq>
         fst (getKey_v1 Undefined (?b @ Number (Finite 7) # []) new_serializer)"
    using s by simp_all
  with p e s k d show ?thesis by simp
qed

text \<open>
  The numbers as the serializer renders them: plain digits up to 21 of them, the
  exponent form from \<open>1e21\<close> and below \<open>1e-6\<close>, the shortest numeral of \<open>2 ** 60\<close>.
\<close>

lemma getKey_numbers_rendered:
  "fst (getKey_v1 Undefined [Number (Finite (10 ^ 21))] st) = Inr ''undefined,1e+21''"
  "fst (getKey_v1 Undefined [Number (Finite (- 123456789012345680000))] st) =
     Inr ''undefined,-123456789012345680000''"
  "fst (getKey_v1 Undefined [Number (Finite 1152921504606847000)] st) =
     Inr ''undefined,1152921504606847000''"
  "fst (getKey_v1 Undefined [Number (Decimal 1 1), Number (Decimal (- 15) 1)] st) =
     Inr ''undefined,0.1,-1.5''"
  "fst (getKey_v1 Undefined [Number (Decimal 1 6), Number (Decimal 1 7)] st) =
     Inr ''undefined,0.000001,1e-7''"
  "fst (getKey_v1 Undefined [Number (Decimal 12345678 19)] st) = Inr ''undefined,1.2345678e-12''"
  "fst (getKey_v1 Undefined [Number PosInfinity, Number NegInfinity, Number NaN] st) =
     Inr ''undefined,null,null,null''"
  by (simp_all add: getKey_v1_primitive render_eval) (simp_all add: numeral_eq_Suc)

text \<open>
  C7. Let \<open>x\<close> and \<open>y\<close> be two different reference values (objects, functions,
  unregistered symbols). In any state the serializer can reach, \<open>getKey(x)\<close> returns
  \<open>undefined,\<close> followed by the segment of \<open>x\<close>. Then, after any further events among
  which \<open>x\<close> is not collected, \<open>getKey(x)\<close> returns the same key again, and
  \<open>getKey(y)\<close> returns a key with another segment: the two values have different
  segments in the \<open>WeakMap\<close> and different keys.
\<close>

theorem distinct_references_distinct_keys:
  assumes "can_be_held_weakly x" "can_be_held_weakly y" "x \<noteq> y" "Collect x \<notin> set later"
  shows "\<exists>sx sy st1 st2 c2 st3.
      getKey_v1 Undefined [x] (fst (srun co (new_serializer, c0) earlier)) =
        (Inr (''undefined,'' @ sx), st1) \<and>
      srun co (st1, c1) later = (st2, c2) \<and>
      fst (getKey_v1 Undefined [x] st2) = Inr (''undefined,'' @ sx) \<and>
      getKey_v1 Undefined [y] st2 = (Inr (''undefined,'' @ sy), st3) \<and>
      weakKeyToKeySegmentCache st3 x = Some sx \<and>
      weakKeyToKeySegmentCache st3 y = Some sy \<and>
      sx \<noteq> sy \<and> ''undefined,'' @ sx \<noteq> ''undefined,'' @ sy"
proof -
  let ?st0 = "fst (srun co (new_serializer, c0) earlier)"
  have inv0: "serializer_inv ?st0"
    by (rule srun_inv) (simp add: new_serializer_inv)
  from getKey_v1_reference [OF assms(1), of ?st0]
  obtain sx st1 where k1: "getKey_v1 Undefined [x] ?st0 = (Inr (''undefined,'' @ sx), st1)"
    and x1: "weakKeyToKeySegmentCache st1 x = Some sx"
    by blast
  from serialize_v1_facts(2) [OF k1 inv0] have inv1: "serializer_inv st1" .
  obtain st2 c2 where run: "srun co (st1, c1) later = (st2, c2)"
    by (cases "srun co (st1, c1) later")
  from srun_inv [of "(st1, c1)" co later] inv1 run have inv2: "serializer_inv st2" by simp
  from srun_alive [OF assms(4), of "(st1, c1)" sx co] x1 run
  have x2: "weakKeyToKeySegmentCache st2 x = Some sx" by simp
  from getKey_v1_reference [OF assms(1), of st2] x2
  have again: "fst (getKey_v1 Undefined [x] st2) = Inr (''undefined,'' @ sx)" by auto
  from getKey_v1_reference [OF assms(2), of st2]
  obtain sy st3 where k2: "getKey_v1 Undefined [y] st2 = (Inr (''undefined,'' @ sy), st3)"
    and y3: "weakKeyToKeySegmentCache st3 y = Some sy"
    by blast
  from serialize_v1_facts [OF k2] inv2 x2
  have inv3: "serializer_inv st3" and x3: "weakKeyToKeySegmentCache st3 x = Some sx"
    by (simp_all add: extends_def)
  from inv3 x3 y3 assms(3) have "sx \<noteq> sy"
    unfolding serializer_inv_def by blast
  with k1 run again k2 x3 y3 show ?thesis by simp
qed

text \<open>An object and a function, with a third object collected in between.\<close>

theorem distinct_references_distinct_keys_witness:
  "can_be_held_weakly (Object 1) \<and> can_be_held_weakly (Function 2) \<and> Object 1 \<noteq> Function 2 \<and>
   Collect (Object 1) \<notin> set [Collect (Object 7), Cleanup ''{0}''] \<and>
   (\<exists>sx sy st1 st2 c2 st3.
      getKey_v1 Undefined [Object 1]
        (fst (srun Map_cache (new_serializer, []) [GetKey Undefined [Object 7]])) =
        (Inr (''undefined,'' @ sx), st1) \<and>
      srun Map_cache (st1, []) [Collect (Object 7), Cleanup ''{0}''] = (st2, c2) \<and>
      fst (getKey_v1 Undefined [Object 1] st2) = Inr (''undefined,'' @ sx) \<and>
      getKey_v1 Undefined [Function 2] st2 = (Inr (''undefined,'' @ sy), st3) \<and>
      weakKeyToKeySegmentCache st3 (Object 1) = Some sx \<and>
      weakKeyToKeySegmentCache st3 (Function 2) = Some sy \<and>
      sx \<noteq> sy \<and> ''undefined,'' @ sx \<noteq> ''undefined,'' @ sy)"
  using distinct_references_distinct_keys
    [of "Object 1" "Function 2" "[Collect (Object 7), Cleanup ''{0}'']"
        Map_cache "[]" "[GetKey Undefined [Object 7]]" "[]"]
  by simp

text \<open>
  C4, as amended. No receiver and no arguments make the serializer of mod.ts or the
  serializer of memoize.ts that calls \<open>assertWeakKey\<close> throw: both return a key, in
  every state. For a registered symbol, which cannot be tracked weakly, the serializer
  of mod.ts takes the segment from its strongly held \<open>Map\<close> (where it is found
  afterwards; the \<open>WeakMap\<close> and the registry are untouched), and the serializer of
  memoize.ts returns the text \<open>Symbol.for("\<dots>")\<close> of the symbol's description and
  changes nothing.
\<close>

theorem untrackable_values_do_not_fail:
  "(\<exists>key st'. getKey_mod this args st = (Inr key, st')) \<and>
   (\<exists>key st'. getKey_v2 this args st2 = (Inr key, st')) \<and>
   (\<exists>seg st'. getKey_mod Undefined [Symbol (Registered d)] st = (Inr (''undefined,'' @ seg), st') \<and>
      Map_get (Symbol (Registered d)) (strongKeySegmentCache st') = Some seg \<and>
      weakKeySegmentCache st' = weakKeySegmentCache st \<and>
      finalizationRegistry st' = finalizationRegistry st) \<and>
   getKey_v2 Undefined [Symbol (Registered d)] st2 =
     (Inr (''undefined,Symbol.for('' @ json_quote d @ '')''), st2)"
  using getKey_mod_total [of this args st] getKey_v2_total [of this args st2]
    getKey_mod_registered [of d st] getKey_v2_registered [of d st2]
  by (intro conjI)

text \<open>
  C4 as stated fails on memoize.ts: for \<open>Symbol.for("xyz")\<close> the segment is the text
  \<open>Symbol.for("xyz")\<close>, not a token of an identity map; no map has an entry for the
  symbol afterwards and the counter has not moved.
\<close>

theorem registered_symbol_rendered_not_mapped:
  "getKey_v2 Undefined [Symbol (Registered ''xyz'')] new_serializer =
     (Inr (''undefined,Symbol.for('' @ CHR 0x22 # ''xyz'' @ CHR 0x22 # '')''), new_serializer) \<and>
   weakKeyToKeySegmentCache
     (snd (getKey_v2 Undefined [Symbol (Registered ''xyz'')] new_serializer))
     (Symbol (Registered ''xyz'')) = None \<and>
   next_i (snd (getKey_v2 Undefined [Symbol (Registered ''xyz'')] new_serializer)) = 0"
  by (simp add: getKey_v2_registered json_quote_def json_escape_def new_serializer_def)

text \<open>
  C3 holds for the callback of memoize.ts (\<open>cleanup_purges_v1\<close>,
  \<open>registry_callback_Map\<close> above) and fails for the callback of mod.ts, which deletes
  the keys from the cache and leaves the index alone. In mod.ts: \<open>getKey(obj)\<close> on a new
  serializer returns the key \<open>undefined,\x01{0}\x02\<close>; with that key in a \<open>Map\<close> cache,
  the cleanup for the segment \<open>\x01{0}\x02\<close> empties the cache and returns the serializer
  unchanged, and the index still lists the key under the segment.
\<close>

theorem mod_cleanup_keeps_index_entry:
  "fst (getKey_mod Undefined [Object 1] new_serializer_mod) =
     Inr (''undefined,'' @ CHR 0x01 # ''{0}'' @ [CHR 0x02]) \<and>
   finalizationRegistry_callback Map_cache (CHR 0x01 # ''{0}'' @ [CHR 0x02])
     (snd (getKey_mod Undefined [Object 1] new_serializer_mod),
      [(''undefined,'' @ CHR 0x01 # ''{0}'' @ [CHR 0x02], String ''!'')]) =
     (snd (getKey_mod Undefined [Object 1] new_serializer_mod), []) \<and>
   Map_get (CHR 0x01 # ''{0}'' @ [CHR 0x02])
     (keySegmentToKeyCache (snd (getKey_mod Undefined [Object 1] new_serializer_mod))) =
     Some [''undefined,'' @ CHR 0x01 # ''{0}'' @ [CHR 0x02]]"
  by (simp add: getKey_mod_def keySegment_mod_def try_weak_def assertWeakKey_def
      nextReferenceKeySegment_def new_serializer_mod_def ref_token_def string_of_nat_0
      finalizationRegistry_callback_def Map_cache_def
      Map_get_def Map_set_def Map_has_def Map_delete_def Let_def)

section \<open>Facts about the memoizer\<close>

lemma memoized_key_throws:
  assumes "getKey m this (truncated m args) (key_state s) = (Inl e, g)"
  shows "memoized m this args s = (Inl e, s\<lparr>key_state := g\<rparr>)"
  using assms by (simp add: memoized_def)

lemma memoized_hit:
  assumes "getKey m this (truncated m args) (key_state s) = (Inr key, g)"
    and "c_has (cache m) key (cache_state s) = (True, c1)"
  shows "memoized m this args s =
     (Inr (fst (c_get (cache m) key c1)),
      s\<lparr>key_state := g, cache_state := snd (c_get (cache m) key c1)\<rparr>)"
  using assms by (simp add: memoized_def split: prod.splits)

lemma memoized_throws:
  assumes "getKey m this (truncated m args) (key_state s) = (Inr key, g)"
    and "c_has (cache m) key (cache_state s) = (False, c1)"
    and "fn m this (truncated m args) (fn_state s) = (Inl e, w)"
  shows "memoized m this args s =
     (Inl e, s\<lparr>key_state := g, cache_state := c1, fn_state := w,
               invocations := invocations s @ [(this, truncated m args)],
               invoked_keys := invoked_keys s @ [key]\<rparr>)"
  using assms by (simp add: memoized_def)

lemma memoized_stores:
  assumes "getKey m this (truncated m args) (key_state s) = (Inr key, g)"
    and "c_has (cache m) key (cache_state s) = (False, c1)"
    and "fn m this (truncated m args) (fn_state s) = (Inr val, w)"
    and "\<And>p. val \<noteq> Promise p"
  shows "memoized m this args s =
     (Inr val, s\<lparr>key_state := g, cache_state := c_set (cache m) key val c1, fn_state := w,
                 invocations := invocations s @ [(this, truncated m args)],
                 invoked_keys := invoked_keys s @ [key]\<rparr>)"
  using assms by (cases val) (auto simp: memoized_def)

lemma memoized_stores_promise:
  assumes "getKey m this (truncated m args) (key_state s) = (Inr key, g)"
    and "c_has (cache m) key (cache_state s) = (False, c1)"
    and "fn m this (truncated m args) (fn_state s) = (Inr (Promise p), w)"
  shows "memoized m this args s =
     (Inr (Promise (FromCatch (next_promise s))),
      s\<lparr>key_state := g,
        cache_state := c_set (cache m) key (Promise (FromCatch (next_promise s))) c1,
        fn_state := w,
        invocations := invocations s @ [(this, truncated m args)],
        invoked_keys := invoked_keys s @ [key],
        reactions := reactions s @ [(p, key, FromCatch (next_promise s))],
        next_promise := next_promise s + 1\<rparr>)"
  using assms by (simp add: memoized_def promise_catch_def)

text \<open>
  What a miss on which \<open>fn\<close> returns leaves behind, whether the value is a promise or
  not: the call is logged, and the value returned is the value stored under the key.
\<close>

lemma memoized_miss_returns:
  assumes "getKey m this (truncated m args) (key_state s) = (Inr key, g)"
    and "c_has (cache m) key (cache_state s) = (False, c1)"
    and "fn m this (truncated m args) (fn_state s) = (Inr val, w)"
  shows "\<exists>v. fst (memoized m this args s) = Inr v \<and>
           cache_state (snd (memoized m this args s)) = c_set (cache m) key v c1 \<and>
           invocations (snd (memoized m this args s)) = invocations s @ [(this, truncated m args)]"
proof (cases "\<exists>p. val = Promise p")
  case True
  then obtain p where "val = Promise p" ..
  with memoized_stores_promise [OF assms(1,2), of p w] assms(3) show ?thesis by simp
next
  case False
  with memoized_stores [OF assms(1,2,3)] show ?thesis by simp
qed

text \<open>
  Calls that all derive the key \<open>k\<close>, on a cache in which \<open>k\<close> is present with the
  value \<open>v\<close> and stays so when \<open>has\<close> and \<open>get\<close> are called for it (\<open>P\<close>): every
  call returns \<open>v\<close> and \<open>fn\<close> is not invoked.
\<close>

lemma calls_all_hit:
  assumes hit: "\<And>c. P c \<Longrightarrow> fst (c_has (cache m) k c) \<and>
                  fst (c_get (cache m) k (snd (c_has (cache m) k c))) = v \<and>
                  P (snd (c_get (cache m) k (snd (c_has (cache m) k c))))"
  shows "P (cache_state s) \<Longrightarrow> derive_key m k cs s \<Longrightarrow>
         fst (calls m cs s) = replicate (length cs) (Inr v) \<and>
         invocations (snd (calls m cs s)) = invocations s \<and>
         fn_state (snd (calls m cs s)) = fn_state s \<and>
         P (cache_state (snd (calls m cs s)))"
proof (induction cs arbitrary: s)
  case Nil
  then show ?case by simp
next
  case (Cons c cs)
  obtain this args where c: "c = (this, args)" by (cases c)
  obtain r g where key: "getKey m this (truncated m args) (key_state s) = (r, g)"
    by (cases "getKey m this (truncated m args) (key_state s)")
  with Cons.prems(2) c have r: "r = Inr k" by simp
  obtain c1 where has: "c_has (cache m) k (cache_state s) = (True, c1)"
    using hit [OF Cons.prems(1)] by (cases "c_has (cache m) k (cache_state s)") simp
  let ?s1 = "s\<lparr>key_state := g, cache_state := snd (c_get (cache m) k c1)\<rparr>"
  from memoized_hit [OF key [unfolded r] has]
  have step: "memoized m this args s = (Inr (fst (c_get (cache m) k c1)), ?s1)" .
  from hit [OF Cons.prems(1)] has
  have v: "fst (c_get (cache m) k c1) = v" and P1: "P (cache_state ?s1)" by simp_all
  from Cons.prems(2) c step have "derive_key m k cs ?s1" by simp
  from Cons.IH [OF P1 this] step v c show ?case
    by (simp add: case_prod_unfold)
qed

lemma or_undefined_simps [simp]:
  "or_undefined (Some v) = v"
  "or_undefined None = Undefined"
  by (simp_all add: or_undefined_def)

lemma Map_cache_simps [simp]:
  "c_has Map_cache k c = (Map_has k c, c)"
  "c_get Map_cache k c = (or_undefined (Map_get k c), c)"
  "c_set Map_cache = Map_set"
  "c_delete Map_cache = Map_delete"
  by (simp_all add: Map_cache_def)

lemma Lru_cache_simps [simp]:
  "c_has Lru_cache = lru_has"
  "c_get Lru_cache k c = (or_undefined (fst (lru_get k c)), snd (lru_get k c))"
  "c_set Lru_cache = lru_set"
  "c_delete Lru_cache = lru_delete"
  by (simp_all add: Lru_cache_def)

lemma Map_get_Some_has: "Map_get k m = Some v \<Longrightarrow> Map_has k m"
  by (simp add: Map_get_def Map_has_def)

lemma Map_get_append_new:
  "\<not> Map_has k m \<Longrightarrow> Map_get k' (m @ [(k, v)]) = (if k' = k then Some v else Map_get k' m)"
  by (auto simp: Map_get_def Map_has_def map_add_def split: option.splits)

lemma Map_get_setMostRecentlyUsed:
  "Map_get k' (entries (setMostRecentlyUsed k v c)) =
     (if k' = k then Some v else Map_get k' (entries c))"
  by (simp add: entries_setMostRecentlyUsed Map_get_append_new Map_get_delete)

lemma Map_hit_stable:
  assumes "Map_get k c = Some v"
  shows "fst (c_has Map_cache k c) \<and>
         fst (c_get Map_cache k (snd (c_has Map_cache k c))) = v \<and>
         Map_get k (snd (c_get Map_cache k (snd (c_has Map_cache k c)))) = Some v"
  using assms by (simp add: Map_get_Some_has)

lemma Lru_hit_stable:
  assumes "Map_get k (entries c) = Some v"
  shows "fst (c_has Lru_cache k c) \<and>
         fst (c_get Lru_cache k (snd (c_has Lru_cache k c))) = v \<and>
         Map_get k (entries (snd (c_get Lru_cache k (snd (c_has Lru_cache k c))))) = Some v"
  using assms
  by (simp add: lru_has_def lru_get_def Map_get_setMostRecentlyUsed)

lemma Map_has_tl: "Map_has k (tl m) \<Longrightarrow> Map_has k m"
  by (cases m) (auto simp: Map_has_iff Map_keys_def)

lemma lru_set_holds:
  assumes "lru_inv c" "1 \<le> maxSize c"
  shows "Map_get k (entries (lru_set k v c)) = Some v"
proof (cases "Map_has k (entries c)")
  case True
  with lru_set_entries [OF assms(1), of k v] show ?thesis
    by (simp add: Map_get_append_new)
next
  case False
  show ?thesis
  proof (cases "Map_size (entries c) < maxSize c")
    case True
    with False lru_set_entries [OF assms(1), of k v] show ?thesis
      by (simp add: Map_get_append_new)
  next
    case full: False
    with assms(2) have ne: "entries c \<noteq> []" by (auto simp: Map_size_def)
    from False have "\<not> Map_has k (tl (entries c))" by (blast dest: Map_has_tl)
    with ne full False lru_set_entries [OF assms(1), of k v] show ?thesis
      by (simp add: Map_get_append_new)
  qed
qed


text \<open>
  A first call misses and \<open>fn\<close> returns; the value is then under the key, in a way
  that \<open>has\<close> and \<open>get\<close> keep (\<open>P\<close>). The calls after it that derive the same key
  return that value, and \<open>fn\<close> has been invoked once.
\<close>

lemma invoked_once:
  assumes hit: "\<And>c. P c \<Longrightarrow> fst (c_has (cache m) k c) \<and>
                  fst (c_get (cache m) k (snd (c_has (cache m) k c))) = v \<and>
                  P (snd (c_get (cache m) k (snd (c_has (cache m) k c))))"
    and miss: "c_has (cache m) k (cache_state s) = (False, c1)"
    and stored: "P (c_set (cache m) k v c1)"
    and keys: "derive_key m k ((this, args) # cs) s"
    and returned: "fst (memoized m this args s) = Inr v"
  shows "fst (calls m ((this, args) # cs) s) = replicate (Suc (length cs)) (Inr v) \<and>
         invocations (snd (calls m ((this, args) # cs) s)) =
           invocations s @ [(this, truncated m args)]"
proof -
  obtain g where key: "getKey m this (truncated m args) (key_state s) = (Inr k, g)"
    using keys by (cases "getKey m this (truncated m args) (key_state s)") simp
  obtain r w where f: "fn m this (truncated m args) (fn_state s) = (r, w)"
    by (cases "fn m this (truncated m args) (fn_state s)")
  from returned memoized_throws [OF key miss, of _ w] f obtain val where r: "r = Inr val"
    by (cases r) auto
  let ?s1 = "snd (memoized m this args s)"
  from memoized_miss_returns [OF key miss f [unfolded r]] returned
  have c1: "cache_state ?s1 = c_set (cache m) k v c1"
    and i1: "invocations ?s1 = invocations s @ [(this, truncated m args)]"
    by auto
  from keys have "derive_key m k cs ?s1" by simp
  with calls_all_hit [of P m k v ?s1 cs] hit stored c1 i1
  have "fst (calls m cs ?s1) = replicate (length cs) (Inr v)"
    and "invocations (snd (calls m cs ?s1)) = invocations s @ [(this, truncated m args)]"
    by simp_all
  with returned show ?thesis
    by (simp add: case_prod_unfold)
qed

lemmas memo_eval =
  memoized_def truncated_def memoize_def memoize_lru_def new_state_def negate_def
  promise_catch_def getKey_v1_primitive render_eval
  Map_has_def Map_get_def Map_set_def Map_delete_def Map_size_def Map_keys_def Let_def
  lru_has_def lru_get_def lru_set_def setMostRecentlyUsed_def pruneToMaxSize_def
  new_LruCache_def

subsection \<open>Promises\<close>

lemma settle_fields [simp]:
  "cache_state (settle p outcome s) = cache_state s"
  "key_state (settle p outcome s) = key_state s"
  "fn_state (settle p outcome s) = fn_state s"
  "invocations (settle p outcome s) = invocations s"
  "reactions (settle p outcome s) = reactions s"
  "next_promise (settle p outcome s) = next_promise s"
  by (simp_all add: settle_def split: option.splits)


lemma foldl_run_reaction_fields [simp]:
  "key_state (foldl (run_reaction m outcome) s rs) = key_state s"
  "fn_state (foldl (run_reaction m outcome) s rs) = fn_state s"
  "invocations (foldl (run_reaction m outcome) s rs) = invocations s"
  "reactions (foldl (run_reaction m outcome) s rs) = reactions s"
  "next_promise (foldl (run_reaction m outcome) s rs) = next_promise s"
  by (induction rs arbitrary: s; simp add: run_reaction_def split: prod.splits settlement.splits)+



lemma run_reactions_fields [simp]:
  "key_state (run_reactions m p s) = key_state s"
  "fn_state (run_reactions m p s) = fn_state s"
  "invocations (run_reactions m p s) = invocations s"
  "next_promise (run_reactions m p s) = next_promise s"
  by (simp_all add: run_reactions_def split: option.splits)


lemma memoized_miss_invokes:
  assumes "getKey m this (truncated m args) (key_state s) = (Inr key, g)"
    and "c_has (cache m) key (cache_state s) = (False, c1)"
  shows "invocations (snd (memoized m this args s)) = invocations s @ [(this, truncated m args)]"
proof -
  obtain r w where f: "fn m this (truncated m args) (fn_state s) = (r, w)"
    by (cases "fn m this (truncated m args) (fn_state s)")
  show ?thesis
  proof (cases r)
    case (Inl e)
    with memoized_throws [OF assms, of e w] f show ?thesis by simp
  next
    case (Inr val)
    with memoized_miss_returns [OF assms, of val w] f show ?thesis by auto
  qed
qed

lemma truncated_take: "truncateArgs m \<Longrightarrow> truncated m (take (fn_length m) args) = truncated m args"
  by (simp add: truncated_def)

lemma memoized_truncates:
  "truncateArgs m \<Longrightarrow> memoized m this (take (fn_length m) args) s = memoized m this args s"
  by (simp add: memoized_def truncated_take)

lemma string_of_int_1: "string_of_int 1 = ''1''"
  by (simp add: render_eval)

subsection \<open>The serializer of memoize.ts lines 238-300 repeats its keys\<close>

lemma keySegment_v2_weak:
  "can_be_held_weakly a \<Longrightarrow> keySegment_v2 a (st, wks) = weak_segment a (st, wks)"
  by (cases a rule: can_be_held_weakly.cases)
     (simp_all add: keySegment_v2_def assertWeakKey_def)

lemma keySegment_v2_other:
  assumes "\<not> can_be_held_weakly a"
  shows "\<exists>seg. \<forall>st wks. keySegment_v2 a (st, wks) = (Inr seg, st, wks)"
proof (cases a)
  case (Number n)
  then show ?thesis by (cases n) (simp_all add: keySegment_v2_def)
next
  case (Symbol sy)
  with assms show ?thesis by (cases sy) (simp_all add: keySegment_v2_def assertWeakKey_def)
qed (use assms in \<open>simp_all add: keySegment_v2_def\<close>)

lemma keySegment_v2_extends:
  assumes "keySegment_v2 a (st, wks) = (r, st', wks')"
  shows "extends st st'"
proof (cases "can_be_held_weakly a")
  case True
  with assms have "weak_segment a (st, wks) = (r, st', wks')" by (simp add: keySegment_v2_weak)
  then show ?thesis by (rule weak_segment_extends)
next
  case False
  from keySegment_v2_other [OF this] assms show ?thesis by auto
qed

lemma map_segments_v2_extends:
  assumes "map_segments keySegment_v2 args (st, wks) = (r, st', wks')"
  shows "extends st st'"
  using map_segments_rel
    [of keySegment_v2 "\<lambda>s s'. extends (fst s) (fst s')", OF _ _ _ assms]
    keySegment_v2_extends extends_trans
  by fastforce

lemma keeps_refl [simp]: "keeps xs st st"
  by (simp add: keeps_def)

lemma keeps_trans: "keeps xs a b \<Longrightarrow> keeps xs b c \<Longrightarrow> keeps xs a c"
  by (simp add: keeps_def)

lemma extends_keeps: "extends a b \<Longrightarrow> keeps xs a b"
  by (simp add: keeps_def extends_def)

lemma keySegment_v2_replay_on:
  assumes "keySegment_v2 a (st, wks) = (Inr seg, st1, wks1)"
    and "\<And>s. can_be_held_weakly a \<Longrightarrow> weakKeyToKeySegmentCache st1 a = Some s \<Longrightarrow>
           weakKeyToKeySegmentCache st2 a = Some s"
  shows "\<exists>wks2'. keySegment_v2 a (st2, wks2) = (Inr seg, st2, wks2')"
proof (cases "can_be_held_weakly a")
  case True
  with assms(1) have w: "weak_segment a (st, wks) = (Inr seg, st1, wks1)"
    by (simp add: keySegment_v2_weak)
  from weak_segment_held [OF True, of st wks] w
  have "weakKeyToKeySegmentCache st1 a = Some seg" by auto
  with assms(2) True have "weakKeyToKeySegmentCache st2 a = Some seg" by simp
  with True show ?thesis by (simp add: keySegment_v2_weak weak_segment_def)
next
  case False
  from keySegment_v2_other [OF this] assms(1) show ?thesis by auto
qed

lemma map_segments_v2_replay_on:
  "map_segments keySegment_v2 args (st, wks) = (Inr segs, st', wks') \<Longrightarrow>
   keeps (filter can_be_held_weakly args) st' st2 \<Longrightarrow>
   \<exists>wks2'. map_segments keySegment_v2 args (st2, wks2) = (Inr segs, st2, wks2')"
proof (induction args arbitrary: st wks segs wks2 wks')
  case Nil
  then show ?case by simp
next
  case (Cons a args)
  obtain r1 st1 wks1 where k: "keySegment_v2 a (st, wks) = (r1, st1, wks1)"
    by (metis prod_cases3)
  obtain r2 st3 wks3 where m: "map_segments keySegment_v2 args (st1, wks1) = (r2, st3, wks3)"
    by (metis prod_cases3)
  from k m Cons.prems(1) obtain seg segs' where r1: "r1 = Inr seg" and r2: "r2 = Inr segs'"
    and eq: "st3 = st'" "segs = seg # segs'"
    by (auto split: sum.splits)
  from map_segments_v2_extends [OF m] eq have e: "extends st1 st'" by simp
  have "weakKeyToKeySegmentCache st2 a = Some s"
    if "can_be_held_weakly a" "weakKeyToKeySegmentCache st1 a = Some s" for s
    using that e Cons.prems(2) by (simp add: extends_def keeps_def)
  from keySegment_v2_replay_on [OF k [unfolded r1] this, of wks2]
  obtain wks2' where k2: "keySegment_v2 a (st2, wks2) = (Inr seg, st2, wks2')" by blast
  from Cons.prems(2) have "keeps (filter can_be_held_weakly args) st' st2"
    by (simp add: keeps_def)
  from Cons.IH [OF m [unfolded r2 eq] this, of wks2']
  obtain wks2'' where "map_segments keySegment_v2 args (st2, wks2') = (Inr segs', st2, wks2'')"
    by blast
  with k2 eq show ?case by simp
qed

lemma getKey_v2_extends:
  assumes "getKey_v2 this args st = (r, st')"
  shows "extends st st'"
proof -
  obtain r1 st1 wks1 where m: "map_segments keySegment_v2 (this # args) (st, []) = (r1, st1, wks1)"
    by (metis prod_cases3)
  with assms have "weakKeyToKeySegmentCache st' = weakKeyToKeySegmentCache st1"
    by (auto simp: getKey_v2_def serialize_def Let_def split: sum.splits)
  with map_segments_v2_extends [OF m] show ?thesis by (simp add: extends_def)
qed

text \<open>
  Once \<open>getKey\<close> has returned a key for a receiver and arguments, it returns the same
  key for them in every later state whose \<open>WeakMap\<close> still has their entries, whatever
  has become of the entries of other values.
\<close>

lemma getKey_v2_replay_on:
  assumes "getKey_v2 this args st = (Inr key, st')"
    and "keeps (filter can_be_held_weakly (this # args)) st' st2"
  shows "fst (getKey_v2 this args st2) = Inr key"
proof -
  obtain r1 st1 wks1 where m: "map_segments keySegment_v2 (this # args) (st, []) = (r1, st1, wks1)"
    by (metis prod_cases3)
  with assms(1) obtain segs where r1: "r1 = Inr segs" and key: "key = join '','' segs"
    and wm: "weakKeyToKeySegmentCache st' = weakKeyToKeySegmentCache st1"
    by (auto simp: getKey_v2_def serialize_def Let_def split: sum.splits)
  from wm assms(2) have "keeps (filter can_be_held_weakly (this # args)) st1 st2"
    by (simp add: keeps_def)
  from map_segments_v2_replay_on [OF m [unfolded r1] this, of "[]"]
  obtain wks2 where "map_segments keySegment_v2 (this # args) (st2, []) = (Inr segs, st2, wks2)"
    by blast
  with key show ?thesis by (simp add: getKey_v2_def serialize_def Let_def)
qed

subsection \<open>The memoized \<open>memoize\<close>\<close>

lemma memoize_self_simps [simp]:
  "fn (memoize_self heap) = memoize_fn"
  "cache (memoize_self heap) = Lru_cache"
  "getKey (memoize_self heap) = memoize_getKey heap"
  "truncated (memoize_self heap) args = args"
  by (simp_all add: memoize_self_def truncated_def)

lemma memoize_fn_not_promise: "memoize_fn this args w = (Inr val, w') \<Longrightarrow> val \<noteq> Promise p"
  by (auto simp: memoize_fn_def split: if_splits)

text \<open>
  After a call of the memoized \<open>memoize\<close> that returns, the value it returned is in the
  cache under the key it derived.
\<close>

lemma memoize_self_holds:
  assumes call: "fst (memoized (memoize_self heap) this args s) = Inr w"
    and key: "fst (memoize_getKey heap this args (key_state s)) = Inr key"
    and inv: "lru_inv (cache_state s)" "1 \<le> maxSize (cache_state s)"
  shows "Map_get key (entries (cache_state (snd (memoized (memoize_self heap) this args s)))) = Some w"
proof -
  let ?m = "memoize_self heap"
  obtain g where k: "getKey ?m this (truncated ?m args) (key_state s) = (Inr key, g)"
    using key by (cases "memoize_getKey heap this args (key_state s)") simp
  show ?thesis
  proof (cases "Map_get key (entries (cache_state s))")
    case (Some v)
    then have has: "c_has (cache ?m) key (cache_state s) =
        (True, setMostRecentlyUsed key v (cache_state s))"
      by (simp add: lru_has_def)
    from memoized_hit [OF k has] call Some show ?thesis
      by (simp add: lru_get_def Map_get_setMostRecentlyUsed)
  next
    case None
    then have miss: "c_has (cache ?m) key (cache_state s) = (False, cache_state s)"
      by (simp add: lru_has_def)
    obtain r w' where f: "fn ?m this (truncated ?m args) (fn_state s) = (r, w')"
      by (cases "fn ?m this (truncated ?m args) (fn_state s)")
    from call memoized_throws [OF k miss, of _ w'] f obtain val where r: "r = Inr val"
      by (cases r) auto
    from f r have "val \<noteq> Promise p" for p
      using memoize_fn_not_promise [of this args "fn_state s" val w'] by simp
    from memoized_stores [OF k miss f [unfolded r] this] call inv show ?thesis
      by (simp add: lru_set_holds)
  qed
qed

lemma memoize_self_key_state:
  "extends (key_state s) (key_state (snd (memoized (memoize_self heap) this args s)))"
proof -
  let ?m = "memoize_self heap"
  obtain r g where k: "memoize_getKey heap this args (key_state s) = (r, g)"
    by (cases "memoize_getKey heap this args (key_state s)")
  then have e: "extends (key_state s) g"
    unfolding memoize_getKey_def by (rule getKey_v2_extends)
  have "key_state (snd (memoized ?m this args s)) = g"
    using k
    by (auto simp: memoized_def Let_def promise_catch_def
        split: sum.splits prod.splits bool.splits jsval.splits)
  with e show ?thesis by simp
qed

lemma memoized_key_state:
  "key_state (snd (memoized m this args s)) =
     snd (getKey m this (truncated m args) (key_state s))"
  by (auto simp: memoized_def Let_def promise_catch_def
      split: sum.splits prod.splits bool.splits jsval.splits)

lemma lru_inv_has: "lru_inv c \<Longrightarrow> lru_inv (snd (lru_has k c))"
  using lru_inv_step [of c "Has k"] by simp

lemma lru_inv_get: "lru_inv c \<Longrightarrow> lru_inv (snd (lru_get k c))"
  using lru_inv_step [of c "Get k"] by simp

lemma maxSize_has_get [simp]:
  "maxSize (snd (lru_has k c)) = maxSize c" "maxSize (snd (lru_get k c)) = maxSize c"
  using maxSize_lru_step [of c "Has k"] maxSize_lru_step [of c "Get k"] by simp_all

lemma maxSize_lru_set [simp]: "maxSize (lru_set k v c) = maxSize c"
  using maxSize_lru_step [of c "Set k v"] by simp

text \<open>A call of a function memoized on an \<open>LruCache\<close> keeps the invariant of the cache.\<close>

lemma memoized_lru_inv:
  assumes "cache m = Lru_cache" "lru_inv (cache_state s)"
  shows "lru_inv (cache_state (snd (memoized m this args s))) \<and>
         maxSize (cache_state (snd (memoized m this args s))) = maxSize (cache_state s)"
proof -
  obtain r g where k: "getKey m this (truncated m args) (key_state s) = (r, g)"
    by (cases "getKey m this (truncated m args) (key_state s)")
  show ?thesis
  proof (cases r)
    case (Inl e)
    with k assms show ?thesis by (simp add: memoized_key_throws)
  next
    case (Inr key)
    obtain h c1 where has: "c_has (cache m) key (cache_state s) = (h, c1)"
      by (cases "c_has (cache m) key (cache_state s)")
    with assms have c1: "lru_inv c1" "maxSize c1 = maxSize (cache_state s)"
      using lru_inv_has [of "cache_state s" key] maxSize_has_get(1) [of key "cache_state s"]
      by simp_all
    show ?thesis
    proof (cases h)
      case True
      with has have "c_has (cache m) key (cache_state s) = (True, c1)" by simp
      from memoized_hit [OF k [unfolded Inr] this] assms(1) c1
      show ?thesis by (simp add: lru_inv_get)
    next
      case False
      with has have miss: "c_has (cache m) key (cache_state s) = (False, c1)" by simp
      obtain r' w where f: "fn m this (truncated m args) (fn_state s) = (r', w)"
        by (cases "fn m this (truncated m args) (fn_state s)")
      show ?thesis
      proof (cases r')
        case (Inl e)
        from memoized_throws [OF k [unfolded Inr] miss f [unfolded Inl]] c1
        show ?thesis by simp
      next
        case r': (Inr val)
        from memoized_miss_returns [OF k [unfolded Inr] miss f [unfolded r']]
          assms(1) c1
        show ?thesis by (auto simp: lru_inv_set)
      qed
    qed
  qed
qed

lemma calls_lru_inv:
  "cache m = Lru_cache \<Longrightarrow> lru_inv (cache_state s) \<Longrightarrow>
   lru_inv (cache_state (snd (calls m cs s))) \<and>
   maxSize (cache_state (snd (calls m cs s))) = maxSize (cache_state s)"
proof (induction cs arbitrary: s)
  case Nil
  then show ?case by simp
next
  case (Cons c cs)
  obtain this args where c: "c = (this, args)" by (cases c)
  from memoized_lru_inv [OF Cons.prems, of this args]
  have "lru_inv (cache_state (snd (memoized m this args s)))"
    and "maxSize (cache_state (snd (memoized m this args s))) = maxSize (cache_state s)"
    by simp_all
  with Cons.IH [OF Cons.prems(1), of "snd (memoized m this args s)"] c show ?case
    by (simp add: case_prod_unfold)
qed

lemma memoize_self_state_inv:
  "lru_inv (cache_state (memoize_self_state supply))"
  "maxSize (cache_state (memoize_self_state supply)) = 100"
  by (simp_all add: memoize_self_state_def new_state_def lru_inv_new) (simp add: new_LruCache_def)

lemmas self_eval =
  self_run_def registry_callback_def collect_def two_options_def lru_delete_def
  memoize_self_def memoize_self_state_def memoize_getKey_def getKey_v2_def serialize_def
  keySegment_v2_def weak_segment_def assertWeakKey_def optionVals_def Object_entries_def
  parameter_def ref_token_def memoize_fn_def new_serializer_def Lru_cache_def memo_eval

text \<open>
  The comparator orders the entries by their names, so two objects with the same
  properties give the same values in the same order, however the properties were added.
\<close>

lemma sort_key_fst_unique:
  assumes "distinct (map fst xs)" "distinct (map fst ys)" "set xs = set ys"
  shows "sort_key fst xs = sort_key fst ys"
proof -
  let ?xs = "sort_key fst xs" and ?ys = "sort_key fst ys"
  from assms(1) have inj: "inj_on fst (set xs)" and dx: "distinct xs"
    by (simp_all add: distinct_map)
  from assms(2) have dy: "distinct ys" by (simp add: distinct_map)
  have 1: "distinct (map fst ?xs)" using inj dx by (simp add: distinct_map)
  have 2: "distinct (map fst ?ys)" using inj dy assms(3) by (simp add: distinct_map)
  have 3: "sorted (map fst ?xs)" and 4: "sorted (map fst ?ys)" by simp_all
  have 5: "set (map fst ?xs) = set (map fst ?ys)" using assms(3) by simp
  from sorted_distinct_set_unique [OF 3 1 4 2 5] have "map fst ?xs = map fst ?ys" .
  moreover have "inj_on fst (set ?xs \<union> set ?ys)" using inj assms(3) by simp
  ultimately show ?thesis by (simp add: inj_on_map_eq_map)
qed

lemma optionVals_same:
  assumes "distinct (map fst (Object_entries heap o1))"
    and "distinct (map fst (Object_entries heap o2))"
    and "set (Object_entries heap o2) = set (Object_entries heap o1)"
  shows "optionVals heap o2 = optionVals heap o1"
  using sort_key_fst_unique [OF assms(2,1,3)] by (simp add: optionVals_def)

lemma set_optionVals: "set (optionVals heap options) = snd ` set (Object_entries heap options)"
  by (simp add: optionVals_def)

subsection \<open>The states of the memoized \<open>memoize\<close>\<close>

lemma lru_inv_foldl_delete:
  "lru_inv c \<Longrightarrow> lru_inv (foldl (\<lambda>c key. lru_delete key c) c keys) \<and>
     maxSize (foldl (\<lambda>c key. lru_delete key c) c keys) = maxSize c"
proof (induction keys arbitrary: c)
  case Nil
  then show ?case by simp
next
  case (Cons k keys)
  from lru_inv_step [OF Cons.prems, of "Delete k"] have "lru_inv (lru_delete k c)" by simp
  from Cons.IH [OF this] maxSize_lru_step [of c "Delete k"] show ?case by simp
qed

lemma self_step_inv:
  assumes "lru_inv (cache_state s)"
  shows "lru_inv (cache_state (self_step heap s ev)) \<and>
         maxSize (cache_state (self_step heap s ev)) = maxSize (cache_state s)"
proof (cases ev)
  case (Memoize this args)
  with memoized_lru_inv [of "memoize_self heap" s this args] assms show ?thesis by simp
next
  case (Unreachable x)
  with assms show ?thesis by simp
next
  case (Finalized seg)
  with lru_inv_foldl_delete [OF assms] show ?thesis
    by (simp add: registry_callback_def)
qed

lemma self_run_inv:
  "lru_inv (cache_state s) \<Longrightarrow>
   lru_inv (cache_state (self_run heap s evs)) \<and>
   maxSize (cache_state (self_run heap s evs)) = maxSize (cache_state s)"
  unfolding self_run_def
proof (induction evs arbitrary: s)
  case Nil
  then show ?case by simp
next
  case (Cons ev evs)
  from self_step_inv [OF Cons.prems, of heap ev] Cons.IH [of "self_step heap s ev"]
  show ?case by simp
qed

lemma self_step_keeps:
  assumes "\<forall>x\<in>set xs. ev \<noteq> Unreachable x"
  shows "keeps xs (key_state s) (key_state (self_step heap s ev))"
proof (cases ev)
  case (Memoize this args)
  with memoize_self_key_state [of s heap this args] show ?thesis
    by (simp add: extends_keeps)
next
  case (Unreachable x)
  with assms show ?thesis by (auto simp: keeps_def collect_def)
next
  case (Finalized seg)
  then show ?thesis by (simp add: keeps_def registry_callback_def)
qed

lemma self_run_keeps:
  "\<forall>x\<in>set xs. Unreachable x \<notin> set evs \<Longrightarrow>
   keeps xs (key_state s) (key_state (self_run heap s evs))"
  unfolding self_run_def
proof (induction evs arbitrary: s)
  case Nil
  show ?case by simp
next
  case (Cons ev evs)
  from Cons.prems have 1: "\<forall>x\<in>set xs. ev \<noteq> Unreachable x"
    and 2: "\<forall>x\<in>set xs. Unreachable x \<notin> set evs" by auto
  from self_step_keeps [OF 1, of s heap] Cons.IH [OF 2, of "self_step heap s ev"]
  show ?case by (auto intro: keeps_trans)
qed

section \<open>Facts about the memoizer of a function that calls the memoized function\<close>

lemma reentrant_simps [simp]:
  "fn_r (reentrant m) = plain (fn m)"
  "cache_r (reentrant m) = cache m"
  "getKey_r (reentrant m) = getKey m"
  "truncated_r (reentrant m) args = truncated m args"
  by (simp_all add: reentrant_def truncated_r_def truncated_def)

lemma run_body_plain:
  "f this args w0 = (r, w) \<Longrightarrow>
   run_body memoized_fn (plain f this args w0) s = (Some r, s\<lparr>fn_state := w\<rparr>)"
  by (simp add: plain_def)

lemma memoized_r_key_throws:
  assumes "getKey_r m this (truncated_r m args) (key_state s) = (Inl e, g)"
  shows "memoized_r (Suc depth) m this args s = (Some (Inl e), s\<lparr>key_state := g\<rparr>)"
  using assms by simp

lemma memoized_r_hit:
  assumes "getKey_r m this (truncated_r m args) (key_state s) = (Inr key, g)"
    and "c_has (cache_r m) key (cache_state s) = (True, c1)"
  shows "memoized_r (Suc depth) m this args s =
     (Some (Inr (fst (c_get (cache_r m) key c1))),
      s\<lparr>key_state := g, cache_state := snd (c_get (cache_r m) key c1)\<rparr>)"
  using assms by (simp split: prod.splits)

lemma memoized_r_miss:
  assumes "getKey_r m this (truncated_r m args) (key_state s) = (Inr key, g)"
    and "c_has (cache_r m) key (cache_state s) = (False, c1)"
    and "run_body (memoized_r depth m) (fn_r m this (truncated_r m args) (fn_state s))
           (s\<lparr>key_state := g, cache_state := c1,
              invocations := invocations s @ [(this, truncated_r m args)],
              invoked_keys := invoked_keys s @ [key]\<rparr>) = (r, s1)"
  shows "memoized_r (Suc depth) m this args s =
     (case r of
        None \<Rightarrow> (None, s1)
      | Some (Inl e) \<Rightarrow> (Some (Inl e), s1)
      | Some (Inr val) \<Rightarrow>
          (case val of
             Promise p \<Rightarrow>
               (Some (Inr (Promise (FromCatch (next_promise s1)))),
                s1\<lparr>reactions := reactions s1 @ [(p, key, FromCatch (next_promise s1))],
                   next_promise := next_promise s1 + 1,
                   cache_state := c_set (cache_r m) key (Promise (FromCatch (next_promise s1)))
                                    (cache_state s1)\<rparr>)
           | _ \<Rightarrow> (Some (Inr val), s1\<lparr>cache_state := c_set (cache_r m) key val (cache_state s1)\<rparr>)))"
  using assms
  by (simp add: promise_catch_def split: option.splits sum.splits jsval.splits)

lemma memoized_r_plain:
  "memoized_r (Suc depth) (reentrant m) this args s =
     (Some (fst (memoized m this args s)), snd (memoized m this args s))"
proof -
  obtain r g where k: "getKey m this (truncated m args) (key_state s) = (r, g)"
    by (cases "getKey m this (truncated m args) (key_state s)")
  show ?thesis
  proof (cases r)
    case (Inl e)
    with k show ?thesis
      by (simp add: memoized_key_throws memoized_r_key_throws del: memoized_r.simps)
  next
    case (Inr key)
    obtain h c1 where has: "c_has (cache m) key (cache_state s) = (h, c1)"
      by (cases "c_has (cache m) key (cache_state s)")
    show ?thesis
    proof (cases h)
      case True
      with k Inr has show ?thesis
        by (simp add: memoized_hit memoized_r_hit del: memoized_r.simps)
    next
      case False
      obtain r' w where f: "fn m this (truncated m args) (fn_state s) = (r', w)"
        by (cases "fn m this (truncated m args) (fn_state s)")
      let ?s0 = "s\<lparr>key_state := g, cache_state := c1,
              invocations := invocations s @ [(this, truncated m args)],
              invoked_keys := invoked_keys s @ [key]\<rparr>"
      from run_body_plain [of "fn m" this "truncated m args" "fn_state s" r' w
          "memoized_r depth (reentrant m)" ?s0, OF f]
      have rb: "run_body (memoized_r depth (reentrant m))
          (fn_r (reentrant m) this (truncated_r (reentrant m) args) (fn_state s)) ?s0 =
          (Some r', ?s0\<lparr>fn_state := w\<rparr>)" by simp
      from k Inr have k': "getKey_r (reentrant m) this (truncated_r (reentrant m) args) (key_state s) =
          (Inr key, g)" by simp
      from has False have miss: "c_has (cache m) key (cache_state s) = (False, c1)" by simp
      then have has': "c_has (cache_r (reentrant m)) key (cache_state s) = (False, c1)"
        by simp
      note l = memoized_r_miss [OF k' has', unfolded reentrant_simps, OF rb [unfolded reentrant_simps]]
      show ?thesis
      proof (cases r')
        case (Inl e)
        with memoized_throws [OF k [unfolded Inr] miss f [unfolded Inl]] l
        show ?thesis by (simp del: memoized_r.simps)
      next
        case r': (Inr val)
        show ?thesis
        proof (cases "\<exists>p. val = Promise p")
          case True
          then obtain p where val: "val = Promise p" ..
          from memoized_stores_promise [OF k [unfolded Inr] miss f [unfolded r' val]]
            l r' val
          show ?thesis by (simp del: memoized_r.simps)
        next
          case np: False
          then have "\<And>p. val \<noteq> Promise p" by simp
          from memoized_stores [OF k [unfolded Inr] miss f [unfolded r'] this]
            l r' np
          show ?thesis by (cases val) (simp_all del: memoized_r.simps)
        qed
      qed
    qed
  qed
qed

text \<open>From here on the function is unfolded by its lemmas.\<close>

declare memoized_r.simps [simp del]

lemma memoized_r_0 [simp]: "memoized_r 0 m this args s = (None, s)"
  by (simp add: memoized_r.simps)







subsection \<open>An \<open>LruCache\<close>, and a function that does not call the memoized function\<close>







subsection \<open>The first call for a key\<close>


lemmas r_eval =
  memoized_r.simps memoize_r_def truncated_r_def reentrant_def plain_def mrun_def
  fib_def once_more_def lru_delete_def memo_eval

section \<open>The claims about the memoizer\<close>




text \<open>
  Once the entry is gone the function is invoked again: after an eviction (a cache of
  size 1 and another key in between) and after a deletion.
\<close>

lemma evicted_or_deleted_invoked_again:
  "invoked_keys (mrun (Suc 0) (reentrant (memoize_lru negate 1))
      (new_state (new_LruCache 1) new_serializer 0)
      [Called Undefined [Number (Finite 1)], Called Undefined [Number (Finite 2)],
       Called Undefined [Number (Finite 1)]]) =
     [''undefined,1'', ''undefined,2'', ''undefined,1'']"
  "invoked_keys (mrun (Suc 0) (reentrant (memoize negate 1 None))
      (new_state [] new_serializer 0)
      [Called Undefined [Number (Finite 1)], Deleted ''undefined,1'',
       Called Undefined [Number (Finite 1)]]) =
     [''undefined,1'', ''undefined,1'']"
  by (simp_all add: r_eval)



text \<open>
  C9. With \<open>truncateArgs\<close>, a call behaves in every respect as the call with the first
  \<open>fn.length\<close> arguments: on a miss it is those arguments that \<open>fn\<close> receives, and
  the key is derived from them. For a function of length 1 that returns when called
  with 1, memoized with \<open>truncateArgs\<close> and the defaults: the calls \<open>(1)\<close> and
  \<open>(1, "ignored")\<close> derive the same key \<open>undefined,1\<close>, return the same value, and
  \<open>fn\<close> is invoked once, with the argument 1 alone.
\<close>

theorem truncateArgs_slices_to_arity:
  "truncateArgs m \<Longrightarrow>
   memoized m this args s = memoized m this (take (fn_length m) args) s \<and>
   (getKey m this (take (fn_length m) args) (key_state s) = (Inr key, g) \<longrightarrow>
    c_has (cache m) key (cache_state s) = (False, c1) \<longrightarrow>
      invocations (snd (memoized m this args s)) =
        invocations s @ [(this, take (fn_length m) args)]) \<and>
   (f Undefined [Number (Finite 1)] (w0::'w) = (Inr v, w1) \<longrightarrow>
      fst (getKey_v1 Undefined
             (truncated (memoize f 1 (Some True)) [Number (Finite 1)]) st) =
        Inr ''undefined,1'' \<and>
      fst (getKey_v1 Undefined
             (truncated (memoize f 1 (Some True)) [Number (Finite 1), String ''ignored'']) st') =
        Inr ''undefined,1'' \<and>
      invocations (snd (calls (memoize f 1 (Some True))
          [(Undefined, [Number (Finite 1)]), (Undefined, [Number (Finite 1), String ''ignored''])]
          (new_state [] new_serializer w0))) = [(Undefined, [Number (Finite 1)])] \<and>
      (\<exists>r. fst (calls (memoize f 1 (Some True))
          [(Undefined, [Number (Finite 1)]), (Undefined, [Number (Finite 1), String ''ignored''])]
          (new_state [] new_serializer w0)) = [Inr r, Inr r]))"
proof (intro conjI impI)
  assume t: "truncateArgs m"
  then show "memoized m this args s = memoized m this (take (fn_length m) args) s"
    by (simp add: memoized_truncates)
  {
    assume "getKey m this (take (fn_length m) args) (key_state s) = (Inr key, g)"
      "c_has (cache m) key (cache_state s) = (False, c1)"
    with t memoized_miss_invokes [of m this args s key g c1]
    show "invocations (snd (memoized m this args s)) =
        invocations s @ [(this, take (fn_length m) args)]"
      by (simp add: truncated_def)
  }
  let ?M = "memoize f 1 (Some True)"
  let ?one = "[Number (Finite 1)]"
  let ?two = "[Number (Finite 1), String ''ignored'']"
  let ?S0 = "new_state [] new_serializer w0
    :: ((string, jsval) jsmap, serializer, 'w, string) memo_state"
  let ?k = "''undefined,1''"
  have key: "getKey_v1 Undefined ?one st = (Inr ?k, st)" for st
    by (simp add: getKey_v1_primitive number_to_string_1)
  have tr: "truncated ?M ?one = ?one" "truncated ?M ?two = ?one"
    by (simp_all add: truncated_def memoize_def)
  show "fst (getKey_v1 Undefined (truncated ?M ?one) st) = Inr ?k"
    and "fst (getKey_v1 Undefined (truncated ?M ?two) st') = Inr ?k"
    unfolding tr by (simp_all add: key)
  assume f: "f Undefined [Number (Finite 1)] w0 = (Inr v, w1)"
  have M: "cache ?M = Map_cache" "getKey ?M = getKey_v1" "fn ?M = f"
    by (simp_all add: memoize_def)
  have k0: "getKey ?M Undefined (truncated ?M ?one) (key_state ?S0) = (Inr ?k, key_state ?S0)"
    unfolding M tr by (simp add: key)
  have miss: "c_has (cache ?M) ?k (cache_state ?S0) = (False, cache_state ?S0)"
    unfolding M by (simp add: new_state_def Map_has_def)
  have f0: "fn ?M Undefined (truncated ?M ?one) (fn_state ?S0) = (Inr v, w1)"
    unfolding M tr using f by (simp add: new_state_def)
  from memoized_miss_returns [OF k0 miss f0]
  obtain r where r: "fst (memoized ?M Undefined ?one ?S0) = Inr r" by blast
  have keys: "derive_key ?M ?k [(Undefined, ?one), (Undefined, ?two)] ?S0"
    unfolding derive_key.simps M tr by (simp add: key)
  have once: "fst (calls ?M [(Undefined, ?one), (Undefined, ?two)] ?S0) =
        replicate (Suc (length [(Undefined, ?two)])) (Inr r) \<and>
      invocations (snd (calls ?M [(Undefined, ?one), (Undefined, ?two)] ?S0)) =
        invocations ?S0 @ [(Undefined, truncated ?M ?one)]"
  proof (rule invoked_once [where P = "\<lambda>c. Map_get ?k c = Some r" and ?c1.0 = "cache_state ?S0"])
    show "fst (c_has (cache ?M) ?k c) \<and>
          fst (c_get (cache ?M) ?k (snd (c_has (cache ?M) ?k c))) = r \<and>
          Map_get ?k (snd (c_get (cache ?M) ?k (snd (c_has (cache ?M) ?k c)))) = Some r"
      if "Map_get ?k c = Some r" for c
      unfolding M using Map_hit_stable [OF that] by simp
    show "Map_get ?k (c_set (cache ?M) ?k r (cache_state ?S0)) = Some r"
      unfolding M by (simp add: Map_get_set)
  qed (fact miss keys r)+
  then show "invocations (snd (calls ?M [(Undefined, ?one), (Undefined, ?two)] ?S0)) =
      [(Undefined, ?one)]"
    unfolding tr by (simp add: new_state_def)
  from once show "\<exists>r. fst (calls ?M [(Undefined, ?one), (Undefined, ?two)] ?S0) = [Inr r, Inr r]"
    by simp
qed

text \<open>The function of the tests, called with \<open>(1, "ignored")\<close> and with \<open>(1)\<close>.\<close>

theorem truncateArgs_slices_to_arity_witness:
  "truncateArgs (memoize negate 1 (Some True)) \<and>
   getKey (memoize negate 1 (Some True)) Undefined
     (take (fn_length (memoize negate 1 (Some True))) [Number (Finite 1), String ''ignored''])
     (key_state (new_state [] new_serializer (0::nat)
        :: ((string, jsval) jsmap, serializer, nat, string) memo_state)) =
     (Inr ''undefined,1'', new_serializer) \<and>
   c_has (cache (memoize negate 1 (Some True))) ''undefined,1''
     (cache_state (new_state [] new_serializer (0::nat)
        :: ((string, jsval) jsmap, serializer, nat, string) memo_state)) = (False, []) \<and>
   negate Undefined [Number (Finite 1)] 0 = (Inr (Number (Finite (- 1))), 1) \<and>
   memoized (memoize negate 1 (Some True)) Undefined [Number (Finite 1), String ''ignored'']
     (new_state [] new_serializer 0) =
   memoized (memoize negate 1 (Some True)) Undefined [Number (Finite 1)]
     (new_state [] new_serializer 0) \<and>
   invocations (snd (memoized (memoize negate 1 (Some True)) Undefined
     [Number (Finite 1), String ''ignored''] (new_state [] new_serializer 0))) =
     [(Undefined, [Number (Finite 1)])] \<and>
   invocations (snd (calls (memoize negate 1 (Some True))
     [(Undefined, [Number (Finite 1)]), (Undefined, [Number (Finite 1), String ''ignored''])]
     (new_state [] new_serializer 0))) = [(Undefined, [Number (Finite 1)])]"
proof -
  let ?M = "memoize negate 1 (Some True)"
  let ?S0 = "new_state [] new_serializer (0::nat)
    :: ((string, jsval) jsmap, serializer, nat, string) memo_state"
  let ?two = "[Number (Finite 1), String ''ignored'']"
  have h1: "truncateArgs ?M" by (simp add: memoize_def)
  have h2: "getKey ?M Undefined (take (fn_length ?M) ?two) (key_state ?S0) =
      (Inr ''undefined,1'', new_serializer)"
    by (simp add: memo_eval)
  have h3: "c_has (cache ?M) ''undefined,1'' (cache_state ?S0) = (False, [])"
    by (simp add: memo_eval)
  have h4: "negate Undefined [Number (Finite 1)] 0 = (Inr (Number (Finite (- 1))), 1)"
    by (simp add: negate_def)
  from truncateArgs_slices_to_arity [OF h1, of Undefined ?two ?S0 "''undefined,1''" new_serializer "[]"
      negate 0 "Number (Finite (- 1))" 1] h2 h3 h4
  have "memoized ?M Undefined ?two ?S0 = memoized ?M Undefined (take (fn_length ?M) ?two) ?S0"
    and "invocations (snd (memoized ?M Undefined ?two ?S0)) =
        invocations ?S0 @ [(Undefined, take (fn_length ?M) ?two)]"
    and "invocations (snd (calls ?M [(Undefined, [Number (Finite 1)]), (Undefined, ?two)] ?S0)) =
        [(Undefined, [Number (Finite 1)])]"
    by blast+
  moreover have "take (fn_length ?M) ?two = [Number (Finite 1)]" "invocations ?S0 = []"
    by (simp_all add: memoize_def new_state_def)
  ultimately show ?thesis using h1 h2 h3 h4 by simp
qed

text \<open>
  C10. The exported \<open>memoize\<close> of memoize.ts lines 157-190, in any state that calls of it,
  collections and cleanups have led to from a new \<open>LruCache(100)\<close> and a new serializer.
  A call with the function \<open>f\<close> and options returns a wrapped function \<open>w\<close> and
  derives a key. A second call has the same \<open>f\<close> and options with equal values: an
  object with the same properties, name by name, in whatever order they were added. It
  returns \<open>w\<close> itself: when it follows at once, and also after any further calls,
  collections and cleanups, provided \<open>f\<close> and the option values are not among the
  values collected and the cache still holds \<open>w\<close> under the key (the entry was not
  evicted).
\<close>

theorem memoize_self_returns_same_function:
  assumes "s = self_run heap (memoize_self_state supply) earlier"
    and "fst (memoized (memoize_self heap) this1 args1 s) = Inr w"
    and "fst (memoize_getKey heap this1 args1 (key_state s)) = Inr key"
    and "parameter args2 0 = parameter args1 0"
    and "distinct (map fst (Object_entries heap (parameter args1 1)))"
    and "distinct (map fst (Object_entries heap (parameter args2 1)))"
    and "set (Object_entries heap (parameter args2 1)) =
         set (Object_entries heap (parameter args1 1))"
  shows
    "fst (memoized (memoize_self heap) this2 args2
            (snd (memoized (memoize_self heap) this1 args1 s))) = Inr w \<and>
     ((\<forall>x\<in>set (parameter args1 0 # map snd (Object_entries heap (parameter args1 1))).
          Unreachable x \<notin> set later) \<longrightarrow>
      Map_get key (entries (cache_state
         (self_run heap (snd (memoized (memoize_self heap) this1 args1 s)) later))) = Some w \<longrightarrow>
      fst (memoized (memoize_self heap) this2 args2
         (self_run heap (snd (memoized (memoize_self heap) this1 args1 s)) later)) = Inr w)"
proof -
  let ?m = "memoize_self heap"
  let ?s1 = "snd (memoized ?m this1 args1 s)"
  let ?vals = "parameter args1 0 # optionVals heap (parameter args1 1)"
  obtain g where k1: "memoize_getKey heap this1 args1 (key_state s) = (Inr key, g)"
    using assms(3) by (cases "memoize_getKey heap this1 args1 (key_state s)") simp
  then have g: "key_state ?s1 = g" by (simp add: memoized_key_state)
  from optionVals_same [OF assms(5,6,7)]
  have vals: "optionVals heap (parameter args2 1) = optionVals heap (parameter args1 1)" .
  have later: "fst (memoized ?m this2 args2 s') = Inr w"
    if e: "keeps ?vals (key_state ?s1) (key_state s')"
      and kept: "Map_get key (entries (cache_state s')) = Some w" for s'
  proof -
    from k1 assms(4) vals
    have k: "getKey_v2 Undefined (parameter args2 0 # optionVals heap (parameter args2 1)) (key_state s) =
        (Inr key, g)"
      by (simp add: memoize_getKey_def)
    from e g assms(4) vals
    have "keeps (filter can_be_held_weakly
        (Undefined # parameter args2 0 # optionVals heap (parameter args2 1))) g (key_state s')"
      by (simp add: keeps_def)
    from getKey_v2_replay_on [OF k this]
    obtain g' where k2: "getKey ?m this2 (truncated ?m args2) (key_state s') = (Inr key, g')"
      by (cases "memoize_getKey heap this2 args2 (key_state s')") (simp add: memoize_getKey_def)
    from kept have has: "c_has (cache ?m) key (cache_state s') =
        (True, setMostRecentlyUsed key w (cache_state s'))"
      by (simp add: lru_has_def)
    from memoized_hit [OF k2 has] show ?thesis
      by (simp add: lru_get_def Map_get_setMostRecentlyUsed)
  qed
  from self_run_inv [of "memoize_self_state supply" heap earlier] assms(1)
  have inv: "lru_inv (cache_state s)" "1 \<le> maxSize (cache_state s)"
    by (simp_all add: memoize_self_state_inv)
  from memoize_self_holds [OF assms(2,3) inv]
  have "Map_get key (entries (cache_state ?s1)) = Some w" .
  from later [OF keeps_refl this]
  have first: "fst (memoized ?m this2 args2 ?s1) = Inr w" .
  have second: "fst (memoized ?m this2 args2 (self_run heap ?s1 later)) = Inr w"
    if alive: "\<forall>x\<in>set (parameter args1 0 # map snd (Object_entries heap (parameter args1 1))).
          Unreachable x \<notin> set later"
      and kept: "Map_get key (entries (cache_state (self_run heap ?s1 later))) = Some w"
  proof -
    from alive have "\<forall>x\<in>set ?vals. Unreachable x \<notin> set later"
      by (simp add: set_optionVals)
    from later [OF self_run_keeps [OF this] kept] show ?thesis .
  qed
  from first second show ?thesis by blast
qed

text \<open>
  \<open>memoize(f, { truncateArgs: true, cache: c })\<close> and then
  \<open>memoize(f, { cache: c, truncateArgs: true })\<close>: at once, and after \<open>memoize(g)\<close>, the
  collection of \<open>g\<close> and the cleanup for its key segment.
\<close>

theorem memoize_self_returns_same_function_witness:
  "memoize_self_state 10 = self_run two_options (memoize_self_state 10) [] \<and>
   fst (memoized (memoize_self two_options) Undefined [Function 1, Object 5]
          (memoize_self_state 10)) = Inr (Function 10) \<and>
   fst (memoize_getKey two_options Undefined [Function 1, Object 5]
          (key_state (memoize_self_state 10))) = Inr ''undefined,{0},{1},true'' \<and>
   parameter [Function 1, Object 6] 0 = parameter [Function 1, Object 5] 0 \<and>
   distinct (map fst (Object_entries two_options (parameter [Function 1, Object 5] 1))) \<and>
   distinct (map fst (Object_entries two_options (parameter [Function 1, Object 6] 1))) \<and>
   Object_entries two_options (parameter [Function 1, Object 5] 1) \<noteq>
   Object_entries two_options (parameter [Function 1, Object 6] 1) \<and>
   set (Object_entries two_options (parameter [Function 1, Object 6] 1)) =
   set (Object_entries two_options (parameter [Function 1, Object 5] 1)) \<and>
   parameter [Function 1, Object 5] 0 #
     map snd (Object_entries two_options (parameter [Function 1, Object 5] 1)) =
     [Function 1, Boolean True, Object 7] \<and>
   Unreachable (Function 1) \<notin>
     set [Memoize Undefined [Function 2], Unreachable (Function 2), Finalized ''{2}''] \<and>
   Unreachable (Boolean True) \<notin>
     set [Memoize Undefined [Function 2], Unreachable (Function 2), Finalized ''{2}''] \<and>
   Unreachable (Object 7) \<notin>
     set [Memoize Undefined [Function 2], Unreachable (Function 2), Finalized ''{2}''] \<and>
   weakKeyToKeySegmentCache (key_state
     (self_run two_options
        (snd (memoized (memoize_self two_options) Undefined [Function 1, Object 5]
                (memoize_self_state 10)))
        [Memoize Undefined [Function 2]])) (Function 2) = Some ''{2}'' \<and>
   weakKeyToKeySegmentCache (key_state
     (self_run two_options
        (snd (memoized (memoize_self two_options) Undefined [Function 1, Object 5]
                (memoize_self_state 10)))
        [Memoize Undefined [Function 2], Unreachable (Function 2), Finalized ''{2}'']))
     (Function 2) = None \<and>
   Map_get ''undefined,{0},{1},true''
     (entries (cache_state
        (self_run two_options
           (snd (memoized (memoize_self two_options) Undefined [Function 1, Object 5]
                   (memoize_self_state 10)))
           [Memoize Undefined [Function 2], Unreachable (Function 2), Finalized ''{2}'']))) =
     Some (Function 10) \<and>
   fst (memoized (memoize_self two_options) Undefined [Function 1, Object 6]
          (snd (memoized (memoize_self two_options) Undefined [Function 1, Object 5]
                  (memoize_self_state 10)))) = Inr (Function 10) \<and>
   fst (memoized (memoize_self two_options) Undefined [Function 1, Object 6]
          (self_run two_options
             (snd (memoized (memoize_self two_options) Undefined [Function 1, Object 5]
                     (memoize_self_state 10)))
             [Memoize Undefined [Function 2], Unreachable (Function 2), Finalized ''{2}''])) =
     Inr (Function 10)"
proof -
  let ?M = "memoize_self two_options"
  let ?S = "memoize_self_state 10"
  let ?a1 = "[Function 1, Object 5]"
  let ?a2 = "[Function 1, Object 6]"
  let ?S1 = "snd (memoized ?M Undefined ?a1 ?S)"
  let ?later = "[Memoize Undefined [Function 2], Unreachable (Function 2), Finalized ''{2}'']"
  have h1: "?S = self_run two_options ?S []" by (simp add: self_run_def)
  have h2: "fst (memoized ?M Undefined ?a1 ?S) = Inr (Function 10)"
    by (simp add: self_eval)
  have h3: "fst (memoize_getKey two_options Undefined ?a1 (key_state ?S)) =
      Inr ''undefined,{0},{1},true''"
    by (simp add: self_eval)
  have h4: "parameter ?a2 0 = parameter ?a1 0" by (simp add: parameter_def)
  have h5: "distinct (map fst (Object_entries two_options (parameter ?a1 1)))"
    by (simp add: self_eval)
  have h6: "distinct (map fst (Object_entries two_options (parameter ?a2 1)))"
    by (simp add: self_eval)
  have h6': "Object_entries two_options (parameter ?a1 1) \<noteq>
      Object_entries two_options (parameter ?a2 1)"
    by (simp add: self_eval)
  have h7: "set (Object_entries two_options (parameter ?a2 1)) =
      set (Object_entries two_options (parameter ?a1 1))"
    by (auto simp: self_eval)
  have v: "parameter ?a1 0 # map snd (Object_entries two_options (parameter ?a1 1)) =
      [Function 1, Boolean True, Object 7]"
    by (simp add: self_eval)
  have u: "Unreachable (Function 1) \<notin> set ?later" "Unreachable (Boolean True) \<notin> set ?later"
    "Unreachable (Object 7) \<notin> set ?later"
    by simp_all
  have h8: "\<forall>x\<in>set (parameter ?a1 0 # map snd (Object_entries two_options (parameter ?a1 1))).
      Unreachable x \<notin> set ?later"
    unfolding v by simp
  have g1: "weakKeyToKeySegmentCache (key_state
      (self_run two_options ?S1 [Memoize Undefined [Function 2]])) (Function 2) = Some ''{2}''"
    by (simp add: self_eval)
  have g2: "weakKeyToKeySegmentCache (key_state (self_run two_options ?S1 ?later))
      (Function 2) = None"
    by (simp add: self_eval)
  have h9: "Map_get ''undefined,{0},{1},true''
      (entries (cache_state (self_run two_options ?S1 ?later))) = Some (Function 10)"
    by (simp add: self_eval)
  from memoize_self_returns_same_function [OF h1 h2 h3 h4 h5 h6 h7, of Undefined ?later] h8 h9
  have "fst (memoized ?M Undefined ?a2 ?S1) = Inr (Function 10)"
    and "fst (memoized ?M Undefined ?a2 (self_run two_options ?S1 ?later)) = Inr (Function 10)"
    by blast+
  with h1 h2 h3 h4 h5 h6 h6' h7 v u g1 g2 h9 show ?thesis by blast
qed

end
